theory Spec2Isabelle
  imports Main "HOL-Library.Multiset"
begin

section \<open>The callback pipeline of callbacks.go\<close>

subsection \<open>Data model\<close>

text \<open>
  The struct \<open>callback\<close> of callbacks.go. A Go function value may be nil, so \<open>match\<close> and
  \<open>handler\<close> are options (\<open>None\<close> is nil). The back pointer \<open>processor\<close> is not a field
  of the record: every operation below takes the processor it works on. The type \<open>'db\<close> is
  the database handle \<open>*DB\<close>, the type \<open>'h\<close> the values of Go type \<open>func(*DB)\<close>.
\<close>

record ('db, 'h) callback =
  name :: string
  before :: string
  after :: string
  remove :: bool
  replace :: bool
  match :: "('db \<Rightarrow> bool) option"
  handler :: "'h option"

text \<open>What the processor writes to \<open>db.Logger\<close> (the source location of a message is left out).\<close>

datatype log_entry =
  Warn_removing string
  | Info_replacing string
  | Warn_duplicated string
  | Error_compile string

text \<open>
  The struct \<open>processor\<close>. Its slice \<open>callbacks\<close> holds pointers; the model holds the
  pointed-to structs themselves, and a write through a pointer \<open>cs[idx]\<close> is the list update
  at \<open>idx\<close>. This is the program as long as every registration brings its own callback
  struct, which is what \<open>Register\<close>, \<open>Remove\<close>, \<open>Replace\<close>, \<open>Before\<close>, \<open>After\<close> and \<open>Match\<close> of
  the processor do. The field \<open>logged\<close> is the output of \<open>db.Logger\<close>, oldest entry first.
\<close>

record ('db, 'h) processor =
  db :: 'db
  Clauses :: "string list"
  fns :: "'h option list"
  callbacks :: "('db, 'h) callback list"
  logged :: "log_entry list"

subsection \<open>getRIndex\<close>

text \<open>The index of the last occurrence of \<open>str\<close>; \<open>None\<close> stands for the result \<open>-1\<close>.\<close>

fun getRIndex :: "string list \<Rightarrow> string \<Rightarrow> nat option" where
  "getRIndex [] str = None"
| "getRIndex (s # strs) str =
     (case getRIndex strs str of
        Some i \<Rightarrow> Some (Suc i)
      | None \<Rightarrow> if s = str then Some 0 else None)"

subsection \<open>The stable sort of the Go library\<close>

text \<open>
  \<open>sort.SliceStable\<close> is \<open>stable_func\<close> of the Go standard library: insertion sort on blocks
  of 20 elements, then rounds of \<open>symMerge_func\<close>. The comparison of sortCallbacks is not a
  strict weak order, so the result depends on the algorithm, which is therefore modelled
  as it is written. \<open>Less(i, j)\<close> of the library is \<open>lt (xs ! i) (xs ! j)\<close> on the current
  contents of the slice.
\<close>

definition swap :: "'a list \<Rightarrow> nat \<Rightarrow> nat \<Rightarrow> 'a list" where
  "swap xs i j = (if i < length xs \<and> j < length xs then xs[i := xs ! j, j := xs ! i] else xs)"

text \<open>The inner loop of \<open>insertionSort_func\<close>: \<open>for j := i; j > a && Less(j, j-1); j--\<close>.\<close>

fun insertion_inner :: "('a \<Rightarrow> 'a \<Rightarrow> bool) \<Rightarrow> 'a list \<Rightarrow> nat \<Rightarrow> nat \<Rightarrow> 'a list" where
  "insertion_inner lt xs a 0 = xs"
| "insertion_inner lt xs a (Suc j) =
     (if Suc j > a \<and> lt (xs ! Suc j) (xs ! j)
      then insertion_inner lt (swap xs (Suc j) j) a j
      else xs)"

text \<open>The outer loop, from \<open>i\<close> on: \<open>for ; i < b; i++\<close>.\<close>

function insertion_outer :: "('a \<Rightarrow> 'a \<Rightarrow> bool) \<Rightarrow> 'a list \<Rightarrow> nat \<Rightarrow> nat \<Rightarrow> nat \<Rightarrow> 'a list" where
  "insertion_outer lt xs a b i =
     (if i < b then insertion_outer lt (insertion_inner lt xs a i) a b (Suc i) else xs)"
  by pat_completeness auto
termination
  by (relation "measure (\<lambda>(lt, xs, a, b, i). b - i)") auto

declare insertion_outer.simps [simp del]

definition insertionSort :: "('a \<Rightarrow> 'a \<Rightarrow> bool) \<Rightarrow> 'a list \<Rightarrow> nat \<Rightarrow> nat \<Rightarrow> 'a list" where
  "insertionSort lt xs a b = insertion_outer lt xs a b (a + 1)"

text \<open>\<open>swapRange_func\<close>: \<open>for i := 0; i < n; i++ { Swap(a+i, b+i) }\<close>, from \<open>i\<close> on.\<close>

function swapRange_from :: "'a list \<Rightarrow> nat \<Rightarrow> nat \<Rightarrow> nat \<Rightarrow> nat \<Rightarrow> 'a list" where
  "swapRange_from xs a b n i =
     (if i < n then swapRange_from (swap xs (a + i) (b + i)) a b n (Suc i) else xs)"
  by pat_completeness auto
termination
  by (relation "measure (\<lambda>(xs, a, b, n, i). n - i)") auto

declare swapRange_from.simps [simp del]

definition swapRange :: "'a list \<Rightarrow> nat \<Rightarrow> nat \<Rightarrow> nat \<Rightarrow> 'a list" where
  "swapRange xs a b n = swapRange_from xs a b n 0"

text \<open>
  The loop of \<open>rotate_func\<close> on the block lengths \<open>i\<close> and \<open>j\<close>. The library calls it with
  both positive; with one of them zero its loop would not end, and the model stops.
\<close>

function rotate_loop :: "'a list \<Rightarrow> nat \<Rightarrow> nat \<Rightarrow> nat \<Rightarrow> 'a list" where
  "rotate_loop xs m i j =
     (if i \<noteq> j \<and> 0 < i \<and> 0 < j then
        (if i > j then rotate_loop (swapRange xs (m - i) m j) m (i - j) j
         else rotate_loop (swapRange xs (m - i) (m + j - i) i) m i (j - i))
      else swapRange xs (m - i) m i)"
  by pat_completeness auto
termination
  by (relation "measure (\<lambda>(xs, m, i, j). i + j)") auto

declare rotate_loop.simps [simp del]

definition rotate_blocks :: "'a list \<Rightarrow> nat \<Rightarrow> nat \<Rightarrow> nat \<Rightarrow> 'a list" where
  "rotate_blocks xs a m b = rotate_loop xs m (m - a) (b - m)"

text \<open>The three binary searches of \<open>symMerge_func\<close>.\<close>

function search_first :: "('a \<Rightarrow> 'a \<Rightarrow> bool) \<Rightarrow> 'a list \<Rightarrow> nat \<Rightarrow> nat \<Rightarrow> nat \<Rightarrow> nat" where
  "search_first lt xs a i j =
     (if i < j then
        (let h = (i + j) div 2 in
         if lt (xs ! h) (xs ! a) then search_first lt xs a (h + 1) j
         else search_first lt xs a i h)
      else i)"
  by pat_completeness auto
termination
  by (relation "measure (\<lambda>(lt, xs, a, i, j). j - i)") auto

declare search_first.simps [simp del]

function search_last :: "('a \<Rightarrow> 'a \<Rightarrow> bool) \<Rightarrow> 'a list \<Rightarrow> nat \<Rightarrow> nat \<Rightarrow> nat \<Rightarrow> nat" where
  "search_last lt xs m i j =
     (if i < j then
        (let h = (i + j) div 2 in
         if \<not> lt (xs ! m) (xs ! h) then search_last lt xs m (h + 1) j
         else search_last lt xs m i h)
      else i)"
  by pat_completeness auto
termination
  by (relation "measure (\<lambda>(lt, xs, m, i, j). j - i)") auto

declare search_last.simps [simp del]

function search_sym :: "('a \<Rightarrow> 'a \<Rightarrow> bool) \<Rightarrow> 'a list \<Rightarrow> nat \<Rightarrow> nat \<Rightarrow> nat \<Rightarrow> nat" where
  "search_sym lt xs p start r =
     (if start < r then
        (let c = (start + r) div 2 in
         if \<not> lt (xs ! (p - c)) (xs ! c) then search_sym lt xs p (c + 1) r
         else search_sym lt xs p start c)
      else start)"
  by pat_completeness auto
termination
  by (relation "measure (\<lambda>(lt, xs, p, start, r). r - start)") auto

declare search_sym.simps [simp del]

text \<open>\<open>for k := a; k < i-1; k++ { Swap(k, k+1) }\<close> and \<open>for k := m; k > i; k-- { Swap(k, k-1) }\<close>.\<close>

function bubble_up :: "'a list \<Rightarrow> nat \<Rightarrow> nat \<Rightarrow> 'a list" where
  "bubble_up xs k i = (if k + 1 < i then bubble_up (swap xs k (k + 1)) (Suc k) i else xs)"
  by pat_completeness auto
termination
  by (relation "measure (\<lambda>(xs, k, i). i - k)") auto

declare bubble_up.simps [simp del]

fun bubble_down :: "'a list \<Rightarrow> nat \<Rightarrow> nat \<Rightarrow> 'a list" where
  "bubble_down xs 0 i = xs"
| "bubble_down xs (Suc k) i = (if Suc k > i then bubble_down (swap xs (Suc k) k) k i else xs)"

definition sym_mid :: "nat \<Rightarrow> nat \<Rightarrow> nat" where
  "sym_mid a b = (a + b) div 2"

definition sym_start :: "('a \<Rightarrow> 'a \<Rightarrow> bool) \<Rightarrow> 'a list \<Rightarrow> nat \<Rightarrow> nat \<Rightarrow> nat \<Rightarrow> nat" where
  "sym_start lt xs a m b =
     (let mid = sym_mid a b; n = mid + m
      in if m > mid then search_sym lt xs (n - 1) (n - b) mid
         else search_sym lt xs (n - 1) a m)"

definition sym_end :: "('a \<Rightarrow> 'a \<Rightarrow> bool) \<Rightarrow> 'a list \<Rightarrow> nat \<Rightarrow> nat \<Rightarrow> nat \<Rightarrow> nat" where
  "sym_end lt xs a m b = sym_mid a b + m - sym_start lt xs a m b"

definition sym_rotate :: "('a \<Rightarrow> 'a \<Rightarrow> bool) \<Rightarrow> 'a list \<Rightarrow> nat \<Rightarrow> nat \<Rightarrow> nat \<Rightarrow> 'a list" where
  "sym_rotate lt xs a m b =
     (let start = sym_start lt xs a m b; end = sym_end lt xs a m b
      in if start < m \<and> m < end then rotate_blocks xs start m end else xs)"

text \<open>
  \<open>symMerge_func\<close>. The recursive call on the left half is written out in both branches of
  the test for the right half; \<open>sym_mid\<close>, \<open>sym_start\<close>, \<open>sym_end\<close> are its locals \<open>mid\<close>,
  \<open>start\<close> (after the search) and \<open>end\<close>, and \<open>sym_rotate\<close> is the slice after the rotation.
\<close>

function symMerge :: "('a \<Rightarrow> 'a \<Rightarrow> bool) \<Rightarrow> 'a list \<Rightarrow> nat \<Rightarrow> nat \<Rightarrow> nat \<Rightarrow> 'a list" where
  "symMerge lt xs a m b =
     (if m - a = 1 then bubble_up xs a (search_first lt xs a m b)
      else if b - m = 1 then bubble_down xs m (search_last lt xs m a m)
      else if sym_mid a b < sym_end lt xs a m b \<and> sym_end lt xs a m b < b
        then symMerge lt
               (if a < sym_start lt xs a m b \<and> sym_start lt xs a m b < sym_mid a b
                then symMerge lt (sym_rotate lt xs a m b) a (sym_start lt xs a m b) (sym_mid a b)
                else sym_rotate lt xs a m b)
               (sym_mid a b) (sym_end lt xs a m b) b
        else if a < sym_start lt xs a m b \<and> sym_start lt xs a m b < sym_mid a b
          then symMerge lt (sym_rotate lt xs a m b) a (sym_start lt xs a m b) (sym_mid a b)
          else sym_rotate lt xs a m b)"
  by pat_completeness auto
termination
proof (relation "measure (\<lambda>(lt, xs, a, m, b). b - a)")
  show "wf (measure (\<lambda>(lt, xs, a, m, b). b - a))" by simp
qed (auto simp: sym_mid_def)

declare symMerge.simps [simp del]


text \<open>The first loop of \<open>stable_func\<close> and the insertion sort of the last block.\<close>

function insertion_blocks :: "('a \<Rightarrow> 'a \<Rightarrow> bool) \<Rightarrow> 'a list \<Rightarrow> nat \<Rightarrow> nat \<Rightarrow> nat \<Rightarrow> 'a list" where
  "insertion_blocks lt xs n a b =
     (if b \<le> n then insertion_blocks lt (insertionSort lt xs a b) n b (b + 20)
      else insertionSort lt xs a n)"
  by pat_completeness auto
termination
  by (relation "measure (\<lambda>(lt, xs, n, a, b). n + 1 - b)") auto

declare insertion_blocks.simps [simp del]

text \<open>In round \<open>k\<close> of the merging the local \<open>blockSize\<close> is \<open>20 * 2 ^ k\<close>.\<close>

definition blockSize :: "nat \<Rightarrow> nat" where
  "blockSize k = 20 * 2 ^ k"

function merge_round :: "('a \<Rightarrow> 'a \<Rightarrow> bool) \<Rightarrow> 'a list \<Rightarrow> nat \<Rightarrow> nat \<Rightarrow> nat \<Rightarrow> nat \<Rightarrow> 'a list" where
  "merge_round lt xs n k a b =
     (if b \<le> n
      then merge_round lt (symMerge lt xs a (a + blockSize k) b) n k b (b + 2 * blockSize k)
      else if a + blockSize k < n then symMerge lt xs a (a + blockSize k) n else xs)"
  by pat_completeness auto
termination
proof (relation "measure (\<lambda>(lt, xs, n, k, a, b). n + 1 - b)")
  fix lt :: "'a \<Rightarrow> 'a \<Rightarrow> bool" and xs :: "'a list" and n k a b :: nat
  assume "b \<le> n"
  moreover have "0 < blockSize k" by (simp add: blockSize_def)
  ultimately show "((lt, symMerge lt xs a (a + blockSize k) b, n, k, b, b + 2 * blockSize k),
      (lt, xs, n, k, a, b)) \<in> measure (\<lambda>(lt, xs, n, k, a, b). n + 1 - b)"
    by simp
qed simp

declare merge_round.simps [simp del]

function merge_rounds :: "('a \<Rightarrow> 'a \<Rightarrow> bool) \<Rightarrow> 'a list \<Rightarrow> nat \<Rightarrow> nat \<Rightarrow> 'a list" where
  "merge_rounds lt xs n k =
     (if blockSize k < n
      then merge_rounds lt (merge_round lt xs n k 0 (2 * blockSize k)) n (Suc k)
      else xs)"
  by pat_completeness auto
termination
proof (relation "measure (\<lambda>(lt, xs, n, k). n - blockSize k)")
  fix lt :: "'a \<Rightarrow> 'a \<Rightarrow> bool" and xs :: "'a list" and n k :: nat
  assume "blockSize k < n"
  moreover have "blockSize k < blockSize (Suc k)" by (simp add: blockSize_def)
  ultimately show "((lt, merge_round lt xs n k 0 (2 * blockSize k), n, Suc k), (lt, xs, n, k))
      \<in> measure (\<lambda>(lt, xs, n, k). n - blockSize k)"
    by simp
qed simp

declare merge_rounds.simps [simp del]

definition SliceStable :: "('a \<Rightarrow> 'a \<Rightarrow> bool) \<Rightarrow> 'a list \<Rightarrow> 'a list" where
  "SliceStable lt xs =
     merge_rounds lt (insertion_blocks lt xs (length xs) 0 20) (length xs) 0"

subsection \<open>sortCallbacks\<close>

text \<open>The comparison that sortCallbacks hands to \<open>sort.SliceStable\<close>.\<close>

definition star_less :: "('db, 'h) callback \<Rightarrow> ('db, 'h) callback \<Rightarrow> bool" where
  "star_less ci cj =
     (if before cj = ''*'' \<and> before ci \<noteq> ''*'' then True
      else if after cj = ''*'' \<and> after ci \<noteq> ''*'' then True
      else False)"

text \<open>
  The loop that fills \<open>names\<close> and warns about a name met before. The state is the names
  so far and the warnings so far.
\<close>

definition names_step ::
  "('db, 'h) callback list \<Rightarrow> string list \<times> log_entry list \<Rightarrow> nat \<Rightarrow> string list \<times> log_entry list"
where
  "names_step cs st k =
     (let c = cs ! k; names = fst st; warns = snd st in
      (names @ [name c],
       (case getRIndex names (name c) of
          Some idx \<Rightarrow>
            if \<not> replace c \<and> \<not> remove c \<and> \<not> remove (cs ! idx)
            then warns @ [Warn_duplicated (name c)] else warns
        | None \<Rightarrow> warns)))"

definition collect_names :: "('db, 'h) callback list \<Rightarrow> string list \<times> log_entry list" where
  "collect_names cs = foldl (names_step cs) ([], []) [0..<length cs]"

definition conflict_msg :: "string \<Rightarrow> string \<Rightarrow> string" where
  "conflict_msg n target = ''conflicting callback '' @ n @ '' with before '' @ target"

text \<open>
  The closure \<open>sortCallback\<close>, applied to the callback \<open>cs[i]\<close>. Its state is the slice \<open>cs\<close>,
  whose structs it writes to, and the local \<open>sorted\<close>. The first part is the block
  \<open>if c.before != ""\<close>: it ends with an error (\<open>Inl\<close>) or goes on with a new state.
\<close>

definition before_part ::
  "string list \<Rightarrow> nat \<Rightarrow> ('db, 'h) callback list \<Rightarrow> string list
   \<Rightarrow> string + ('db, 'h) callback list \<times> string list"
where
  "before_part names i cs srtd =
     (let c = cs ! i in
      if before c \<noteq> [] then
        (if before c = ''*'' \<and> length srtd > 0 then
           (case getRIndex srtd (name c) of
              None \<Rightarrow> Inr (cs, name c # srtd)
            | Some curIdx \<Rightarrow> Inr (cs, srtd))
         else
           (case getRIndex srtd (before c) of
              Some sortedIdx \<Rightarrow>
                (case getRIndex srtd (name c) of
                   None \<Rightarrow> Inr (cs, take sortedIdx srtd @ name c # drop sortedIdx srtd)
                 | Some curIdx \<Rightarrow>
                     if curIdx > sortedIdx then Inl (conflict_msg (name c) (before c))
                     else Inr (cs, srtd))
            | None \<Rightarrow>
                (case getRIndex names (before c) of
                   Some idx \<Rightarrow> Inr (cs[idx := (cs ! idx)\<lparr>after := name c\<rparr>], srtd)
                 | None \<Rightarrow> Inr (cs, srtd))))
      else Inr (cs, srtd))"

text \<open>
  The block \<open>if c.after != ""\<close> up to its recursive calls: it ends with an error, goes on
  with a new \<open>sorted\<close>, or asks for the two recursive calls, on \<open>cs[idx]\<close> and then on \<open>c\<close>
  again, in a slice where \<open>cs[idx].before\<close> may have been set.
\<close>

datatype ('db, 'h) after_step =
  After_error string
  | After_done "string list"
  | After_recurse nat "('db, 'h) callback list"

definition after_part ::
  "string list \<Rightarrow> nat \<Rightarrow> ('db, 'h) callback list \<Rightarrow> string list \<Rightarrow> ('db, 'h) after_step"
where
  "after_part names i cs srtd =
     (let c = cs ! i in
      if after c \<noteq> [] then
        (if after c = ''*'' \<and> length srtd > 0 then
           (case getRIndex srtd (name c) of
              None \<Rightarrow> After_done (srtd @ [name c])
            | Some curIdx \<Rightarrow> After_done srtd)
         else
           (case getRIndex srtd (after c) of
              Some sortedIdx \<Rightarrow>
                (case getRIndex srtd (name c) of
                   None \<Rightarrow> After_done (srtd @ [name c])
                 | Some curIdx \<Rightarrow>
                     if curIdx < sortedIdx then After_error (conflict_msg (name c) (after c))
                     else After_done srtd)
            | None \<Rightarrow>
                (case getRIndex names (after c) of
                   Some idx \<Rightarrow>
                     After_recurse idx
                       (if before (cs ! idx) = [] then cs[idx := (cs ! idx)\<lparr>before := name c\<rparr>]
                        else cs)
                 | None \<Rightarrow> After_done srtd)))
      else After_done srtd)"

text \<open>The end of the closure: \<open>c.name\<close> is appended unless it is in \<open>sorted\<close>.\<close>

definition append_unsorted :: "('db, 'h) callback list \<Rightarrow> nat \<Rightarrow> string list \<Rightarrow> string list" where
  "append_unsorted cs i srtd =
     (case getRIndex srtd (name (cs ! i)) of
        None \<Rightarrow> srtd @ [name (cs ! i)]
      | Some idx \<Rightarrow> srtd)"

text \<open>
  The recursion of \<open>sortCallback\<close> need not end (two callbacks that are each \<open>after\<close> the
  other call each other until the stack overflows), so the model counts the depth of the
  calls: \<open>None\<close> says that the depth allowed was not enough. A result is the error
  returned, if any, with the slice and \<open>sorted\<close> as the call leaves them.
\<close>

fun sortCallback ::
  "nat \<Rightarrow> string list \<Rightarrow> nat \<Rightarrow> ('db, 'h) callback list \<Rightarrow> string list
   \<Rightarrow> (string option \<times> ('db, 'h) callback list \<times> string list) option"
where
  "sortCallback 0 names i cs srtd = None"
| "sortCallback (Suc fuel) names i cs srtd =
     (case before_part names i cs srtd of
        Inl err \<Rightarrow> Some (Some err, cs, srtd)
      | Inr (cs1, srtd1) \<Rightarrow>
          (case after_part names i cs1 srtd1 of
             After_error err \<Rightarrow> Some (Some err, cs1, srtd1)
           | After_done srtd2 \<Rightarrow> Some (None, cs1, append_unsorted cs1 i srtd2)
           | After_recurse idx cs2 \<Rightarrow>
               (case sortCallback fuel names idx cs2 srtd1 of
                  None \<Rightarrow> None
                | Some (Some err, cs3, srtd3) \<Rightarrow> Some (Some err, cs3, srtd3)
                | Some (None, cs3, srtd3) \<Rightarrow>
                    (case sortCallback fuel names i cs3 srtd3 of
                       None \<Rightarrow> None
                     | Some (Some err, cs4, srtd4) \<Rightarrow> Some (Some err, cs4, srtd4)
                     | Some (None, cs4, srtd4) \<Rightarrow>
                         Some (None, cs4, append_unsorted cs4 i srtd4)))))"

text \<open>The loop \<open>for _, c := range cs\<close> that calls the closure, over the indices left.\<close>

fun sort_loop ::
  "nat \<Rightarrow> string list \<Rightarrow> nat list \<Rightarrow> ('db, 'h) callback list \<Rightarrow> string list
   \<Rightarrow> (string option \<times> ('db, 'h) callback list \<times> string list) option"
where
  "sort_loop fuel names [] cs srtd = Some (None, cs, srtd)"
| "sort_loop fuel names (i # is) cs srtd =
     (case sortCallback fuel names i cs srtd of
        None \<Rightarrow> None
      | Some (Some err, cs1, srtd1) \<Rightarrow> Some (Some err, cs1, srtd1)
      | Some (None, cs1, srtd1) \<Rightarrow> sort_loop fuel names is cs1 srtd1)"

text \<open>
  The last loop, from the names in \<open>sorted\<close> to the handlers. A name that is not in \<open>names\<close>
  would make \<open>cs[idx]\<close> an index out of range, a panic: the result is \<open>None\<close> then.
\<close>

fun project_fns ::
  "string list \<Rightarrow> ('db, 'h) callback list \<Rightarrow> string list \<Rightarrow> 'h option list option"
where
  "project_fns names cs [] = Some []"
| "project_fns names cs (n # srtd) =
     (case getRIndex names n of
        None \<Rightarrow> None
      | Some idx \<Rightarrow>
          (case project_fns names cs srtd of
             None \<Rightarrow> None
           | Some fs \<Rightarrow> Some (if \<not> remove (cs ! idx) then handler (cs ! idx) # fs else fs)))"

text \<open>
  What a call of sortCallbacks leaves behind: the slice it was given, sorted and written
  to in place, the warnings it logged, and its two results \<open>fns\<close> and \<open>err\<close>.
\<close>

record ('db, 'h) sorted_result =
  sr_cs :: "('db, 'h) callback list"
  sr_warnings :: "log_entry list"
  sr_fns :: "'h option list"
  sr_err :: "string option"

text \<open>
  \<open>sortCallbacks\<close>. \<open>None\<close>: the call does not return, because the recursion is deeper than
  \<open>fuel\<close> or because of the panic above.
\<close>

definition sortCallbacks ::
  "nat \<Rightarrow> ('db, 'h) callback list \<Rightarrow> ('db, 'h) sorted_result option"
where
  "sortCallbacks fuel cs0 =
     (let cs = SliceStable star_less cs0;
          names = fst (collect_names cs);
          warns = snd (collect_names cs)
      in case sort_loop fuel names [0..<length cs] cs [] of
           None \<Rightarrow> None
         | Some (Some err, cs1, srtd) \<Rightarrow>
             Some \<lparr>sr_cs = cs1, sr_warnings = warns, sr_fns = [], sr_err = Some err\<rparr>
         | Some (None, cs1, srtd) \<Rightarrow>
             (case project_fns names cs1 srtd of
                None \<Rightarrow> None
              | Some fs \<Rightarrow>
                  Some \<lparr>sr_cs = cs1, sr_warnings = warns, sr_fns = fs, sr_err = None\<rparr>))"

subsection \<open>The processor\<close>

definition removeCallbacks ::
  "('db, 'h) callback list \<Rightarrow> string set \<Rightarrow> ('db, 'h) callback list"
where
  "removeCallbacks cs nameMap = filter (\<lambda>c. name c \<notin> nameMap) cs"

text \<open>
  \<open>compile\<close>. The slice it builds becomes \<open>p.callbacks\<close> and is the one sortCallbacks sorts
  and writes to, so the processor keeps it as sortCallbacks leaves it.
\<close>

definition matches :: "'db \<Rightarrow> ('db, 'h) callback \<Rightarrow> bool" where
  "matches d c = (case match c of None \<Rightarrow> True | Some fc \<Rightarrow> fc d)"

definition compile ::
  "nat \<Rightarrow> ('db, 'h) processor \<Rightarrow> (('db, 'h) processor \<times> string option) option"
where
  "compile fuel p =
     (let kept = filter (matches (db p)) (callbacks p);
          removedMap = set (map name (filter remove (callbacks p)));
          cbs = (if removedMap \<noteq> {} then removeCallbacks kept removedMap else kept)
      in case sortCallbacks fuel cbs of
           None \<Rightarrow> None
         | Some r \<Rightarrow>
             Some (p\<lparr>callbacks := sr_cs r, fns := sr_fns r,
                     logged := logged p @ sr_warnings r @
                       (case sr_err r of None \<Rightarrow> [] | Some err \<Rightarrow> [Error_compile err])\<rparr>,
                   sr_err r))"

text \<open>The zero value \<open>&callback{processor: p}\<close> and the builders of the processor and the callback.\<close>

definition new_callback :: "('db, 'h) callback" where
  "new_callback =
     \<lparr>name = [], before = [], after = [], remove = False, replace = False,
      match = None, handler = None\<rparr>"

definition Before :: "string \<Rightarrow> ('db, 'h) callback" where
  "Before n = new_callback\<lparr>before := n\<rparr>"

definition After :: "string \<Rightarrow> ('db, 'h) callback" where
  "After n = new_callback\<lparr>after := n\<rparr>"

definition Match :: "('db \<Rightarrow> bool) \<Rightarrow> ('db, 'h) callback" where
  "Match fc = new_callback\<lparr>match := Some fc\<rparr>"

definition callback_Before :: "('db, 'h) callback \<Rightarrow> string \<Rightarrow> ('db, 'h) callback" where
  "callback_Before c n = c\<lparr>before := n\<rparr>"

definition callback_After :: "('db, 'h) callback \<Rightarrow> string \<Rightarrow> ('db, 'h) callback" where
  "callback_After c n = c\<lparr>after := n\<rparr>"

definition callback_Register ::
  "nat \<Rightarrow> ('db, 'h) processor \<Rightarrow> ('db, 'h) callback \<Rightarrow> string \<Rightarrow> 'h option
   \<Rightarrow> (('db, 'h) processor \<times> string option) option"
where
  "callback_Register fuel p c n fn =
     compile fuel (p\<lparr>callbacks := callbacks p @ [c\<lparr>name := n, handler := fn\<rparr>]\<rparr>)"

definition callback_Remove ::
  "nat \<Rightarrow> ('db, 'h) processor \<Rightarrow> ('db, 'h) callback \<Rightarrow> string
   \<Rightarrow> (('db, 'h) processor \<times> string option) option"
where
  "callback_Remove fuel p c n =
     compile fuel
       (p\<lparr>logged := logged p @ [Warn_removing n],
          callbacks := callbacks p @ [c\<lparr>name := n, remove := True\<rparr>]\<rparr>)"

definition callback_Replace ::
  "nat \<Rightarrow> ('db, 'h) processor \<Rightarrow> ('db, 'h) callback \<Rightarrow> string \<Rightarrow> 'h option
   \<Rightarrow> (('db, 'h) processor \<times> string option) option"
where
  "callback_Replace fuel p c n fn =
     compile fuel
       (p\<lparr>logged := logged p @ [Info_replacing n],
          callbacks := callbacks p @ [c\<lparr>name := n, handler := fn, replace := True\<rparr>]\<rparr>)"

definition Register ::
  "nat \<Rightarrow> ('db, 'h) processor \<Rightarrow> string \<Rightarrow> 'h option
   \<Rightarrow> (('db, 'h) processor \<times> string option) option"
where
  "Register fuel p n fn = callback_Register fuel p new_callback n fn"

definition Remove ::
  "nat \<Rightarrow> ('db, 'h) processor \<Rightarrow> string \<Rightarrow> (('db, 'h) processor \<times> string option) option"
where
  "Remove fuel p n = callback_Remove fuel p new_callback n"

definition Replace ::
  "nat \<Rightarrow> ('db, 'h) processor \<Rightarrow> string \<Rightarrow> 'h option
   \<Rightarrow> (('db, 'h) processor \<times> string option) option"
where
  "Replace fuel p n fn = callback_Replace fuel p new_callback n fn"

text \<open>\<open>Get\<close>: the handler of the last callback of that name that is no removal, or nil.\<close>

fun Get_from :: "('db, 'h) callback list \<Rightarrow> string \<Rightarrow> 'h option" where
  "Get_from [] n = None"
| "Get_from (v # vs) n = (if name v = n \<and> \<not> remove v then handler v else Get_from vs n)"

definition Get :: "('db, 'h) processor \<Rightarrow> string \<Rightarrow> 'h option" where
  "Get p n = Get_from (rev (callbacks p)) n"

text \<open>A processor as \<open>initializeCallbacks\<close> makes it.\<close>

definition new_processor :: "'db \<Rightarrow> ('db, 'h) processor" where
  "new_processor d = \<lparr>db = d, Clauses = [], fns = [], callbacks = [], logged = []\<rparr>"

subsection \<open>Execute\<close>

text \<open>
  The parts of \<open>*DB\<close> and of its \<open>Statement\<close> that \<open>Execute\<close> reads and writes, as one
  record: \<open>db.Statement\<close>, the local \<open>stmt\<close> and \<open>stmt.DB\<close> are this one value, and a handler
  is a function from it to it. Values of type \<open>interface{}\<close> are \<open>'v\<close> (\<open>None\<close> is nil), the
  errors of \<open>stmt.Parse\<close> are \<open>'e\<close>, pending scopes are \<open>'s\<close>. \<open>Error\<close> lists what \<open>AddError\<close>
  was given and \<open>traced\<close> the statements handed to \<open>Logger.Trace\<close>, oldest first.
\<close>

datatype 'e exec_error = Parse_error 'e | Table_not_set 'e | ErrInvalidValue

record ('v, 'e, 's) DB =
  scopes :: "'s list"
  BuildClauses :: "string list"
  Dest :: "'v option"
  Model :: "'v option"
  Table :: string
  TableExpr :: "'v option"
  SQL :: string
  Vars :: "'v list"
  ReflectValue :: "'v option"
  DryRun :: bool
  Error :: "'e exec_error list"
  traced :: "(string \<times> 'v list) list"

text \<open>
  What \<open>Execute\<close> calls outside callbacks.go: \<open>executeScopes\<close>; the type assertion of \<open>Dest\<close>
  to \<open>StatementModifier\<close> with its method; \<open>stmt.Parse\<close>, which may write to the statement
  and return an error; \<open>errors.Is(err, ErrUnsupportedDataType)\<close>; and the chain of
  \<open>reflect\<close> calls that follows the pointers of \<open>Dest\<close>, \<open>None\<close> for an invalid value.
\<close>

record ('v, 'e, 's) collaborators =
  executeScopes :: "('v, 'e, 's) DB \<Rightarrow> ('v, 'e, 's) DB"
  ModifyStatement :: "'v \<Rightarrow> (('v, 'e, 's) DB \<Rightarrow> ('v, 'e, 's) DB) option"
  Parse :: "'v \<Rightarrow> ('v, 'e, 's) DB \<Rightarrow> ('v, 'e, 's) DB \<times> 'e option"
  is_unsupported :: "'e \<Rightarrow> bool"
  reflect_value :: "'v \<Rightarrow> 'v option"

definition AddError :: "'e exec_error \<Rightarrow> ('v, 'e, 's) DB \<Rightarrow> ('v, 'e, 's) DB" where
  "AddError err d = d\<lparr>Error := Error d @ [err]\<rparr>"

text \<open>
  \<open>for len(db.Statement.scopes) > 0 { db = db.executeScopes() }\<close>: a scope may add scopes,
  so the loop has a bound on its rounds, and \<open>None\<close> says that the bound was reached.
\<close>

fun call_scopes ::
  "nat \<Rightarrow> ('v, 'e, 's) collaborators \<Rightarrow> ('v, 'e, 's) DB \<Rightarrow> ('v, 'e, 's) DB option"
where
  "call_scopes 0 env d = (if length (scopes d) > 0 then None else Some d)"
| "call_scopes (Suc fuel) env d =
     (if length (scopes d) > 0 then call_scopes fuel env (executeScopes env d) else Some d)"

definition adopt_clauses :: "string list \<Rightarrow> ('v, 'e, 's) DB \<Rightarrow> ('v, 'e, 's) DB" where
  "adopt_clauses cl d = (if length (BuildClauses d) = 0 then d\<lparr>BuildClauses := cl\<rparr> else d)"

definition modify_statement ::
  "('v, 'e, 's) collaborators \<Rightarrow> ('v, 'e, 's) DB \<Rightarrow> ('v, 'e, 's) DB"
where
  "modify_statement env d =
     (case Dest d of
        None \<Rightarrow> d
      | Some v \<Rightarrow> (case ModifyStatement env v of None \<Rightarrow> d | Some optimizer \<Rightarrow> optimizer d))"

definition assign_model :: "('v, 'e, 's) DB \<Rightarrow> ('v, 'e, 's) DB" where
  "assign_model d =
     (if Model d = None then d\<lparr>Model := Dest d\<rparr>
      else if Dest d = None then d\<lparr>Dest := Model d\<rparr>
      else d)"

definition parse_model ::
  "('v, 'e, 's) collaborators \<Rightarrow> ('v, 'e, 's) DB \<Rightarrow> ('v, 'e, 's) DB"
where
  "parse_model env d =
     (case Model d of
        None \<Rightarrow> d
      | Some v \<Rightarrow>
          (let d1 = fst (Parse env v d) in
           case snd (Parse env v d) of
             None \<Rightarrow> d1
           | Some err \<Rightarrow>
               if \<not> is_unsupported env err
                  \<or> (Table d1 = [] \<and> TableExpr d1 = None \<and> length (SQL d1) = 0)
               then
                 (if is_unsupported env err \<and> Table d1 = [] \<and> TableExpr d1 = None
                  then AddError (Table_not_set err) d1
                  else AddError (Parse_error err) d1)
               else d1))"

definition assign_reflect ::
  "('v, 'e, 's) collaborators \<Rightarrow> ('v, 'e, 's) DB \<Rightarrow> ('v, 'e, 's) DB"
where
  "assign_reflect env d =
     (case Dest d of
        None \<Rightarrow> d
      | Some v \<Rightarrow>
          (let d1 = d\<lparr>ReflectValue := reflect_value env v\<rparr> in
           if ReflectValue d1 = None then AddError ErrInvalidValue d1 else d1))"

text \<open>\<open>for _, f := range p.fns { f(db) }\<close>; calling a nil function panics (\<open>None\<close>).\<close>

fun run_fns :: "('d \<Rightarrow> 'd) option list \<Rightarrow> 'd \<Rightarrow> 'd option" where
  "run_fns [] d = Some d"
| "run_fns (None # fs) d = None"
| "run_fns (Some f # fs) d = run_fns fs (f d)"

definition trace_sql :: "('v, 'e, 's) DB \<Rightarrow> ('v, 'e, 's) DB" where
  "trace_sql d = (if length (SQL d) > 0 then d\<lparr>traced := traced d @ [(SQL d, Vars d)]\<rparr> else d)"

definition reset_sql :: "('v, 'e, 's) DB \<Rightarrow> ('v, 'e, 's) DB" where
  "reset_sql d = (if \<not> DryRun d then d\<lparr>SQL := [], Vars := []\<rparr> else d)"

text \<open>
  \<open>Execute\<close> up to the end of the loop over \<open>p.fns\<close>: the database handle as the handlers
  leave it, and the local \<open>resetBuildClauses\<close>.
\<close>

definition Execute_handlers ::
  "nat \<Rightarrow> ('v, 'e, 's) collaborators
   \<Rightarrow> ('pdb, ('v, 'e, 's) DB \<Rightarrow> ('v, 'e, 's) DB) processor \<Rightarrow> ('v, 'e, 's) DB
   \<Rightarrow> (('v, 'e, 's) DB \<times> bool) option"
where
  "Execute_handlers fuel env p d0 =
     (case call_scopes fuel env d0 of
        None \<Rightarrow> None
      | Some d \<Rightarrow>
          (let resetBuildClauses = (length (BuildClauses d) = 0);
               d1 = adopt_clauses (Clauses p) d;
               d2 = modify_statement env d1;
               d3 = assign_model d2;
               d4 = parse_model env d3;
               d5 = assign_reflect env d4
           in case run_fns (fns p) d5 of
                None \<Rightarrow> None
              | Some d6 \<Rightarrow> Some (d6, resetBuildClauses)))"

definition Execute ::
  "nat \<Rightarrow> ('v, 'e, 's) collaborators
   \<Rightarrow> ('pdb, ('v, 'e, 's) DB \<Rightarrow> ('v, 'e, 's) DB) processor \<Rightarrow> ('v, 'e, 's) DB
   \<Rightarrow> ('v, 'e, 's) DB option"
where
  "Execute fuel env p d0 =
     (case Execute_handlers fuel env p d0 of
        None \<Rightarrow> None
      | Some (d6, resetBuildClauses) \<Rightarrow>
          (let d7 = trace_sql d6;
               d8 = reset_sql d7
           in Some (if resetBuildClauses then d8\<lparr>BuildClauses := []\<rparr> else d8)))"

subsection \<open>Notions used in the statements\<close>

text \<open>No element of the list is less than another one.\<close>

definition no_less :: "('a \<Rightarrow> 'a \<Rightarrow> bool) \<Rightarrow> 'a list \<Rightarrow> bool" where
  "no_less lt xs = (\<forall>x \<in> set xs. \<forall>y \<in> set xs. \<not> lt x y)"

text \<open>The fields of a callback that only the registration writes.\<close>

definition fixed_fields ::
  "('db, 'h) callback \<Rightarrow> string \<times> bool \<times> bool \<times> ('db \<Rightarrow> bool) option \<times> 'h option" where
  "fixed_fields c = (name c, remove c, replace c, match c, handler c)"

text \<open>
  The candidate set of a compilation: the callbacks whose condition holds and whose name
  bears no removal.
\<close>

definition candidates :: "('db, 'h) processor \<Rightarrow> ('db, 'h) callback list" where
  "candidates p =
     filter (\<lambda>c. name c \<notin> set (map name (filter remove (callbacks p))))
       (filter (matches (db p)) (callbacks p))"

text \<open>
  A client of a stage: a sequence of registrations, removals and replacements, each made
  through a callback struct of its own, with the error each call returned.
\<close>

datatype ('db, 'h) registration =
  Reg "('db, 'h) callback" string "'h option"
  | Rem "('db, 'h) callback" string
  | Repl "('db, 'h) callback" string "'h option"

fun apply_registration ::
  "nat \<Rightarrow> ('db, 'h) processor \<Rightarrow> ('db, 'h) registration
   \<Rightarrow> (('db, 'h) processor \<times> string option) option"
where
  "apply_registration fuel p (Reg c n fn) = callback_Register fuel p c n fn"
| "apply_registration fuel p (Rem c n) = callback_Remove fuel p c n"
| "apply_registration fuel p (Repl c n fn) = callback_Replace fuel p c n fn"

fun register_all ::
  "nat \<Rightarrow> ('db, 'h) processor \<Rightarrow> ('db, 'h) registration list
   \<Rightarrow> (('db, 'h) processor \<times> string option list) option"
where
  "register_all fuel p [] = Some (p, [])"
| "register_all fuel p (r # rs) =
     (case apply_registration fuel p r of
        None \<Rightarrow> None
      | Some (p1, err) \<Rightarrow>
          (case register_all fuel p1 rs of
             None \<Rightarrow> None
           | Some (p2, errs) \<Rightarrow> Some (p2, err # errs)))"

text \<open>
  A callback with no constraint, no condition and no removal mark; the callback and the
  registration that plain \<open>Register\<close> makes of a name and a handler.
\<close>

definition unconstrained :: "('db, 'h) callback \<Rightarrow> bool" where
  "unconstrained c = (before c = [] \<and> after c = [] \<and> \<not> remove c \<and> match c = None)"

definition plain_step :: "string \<times> 'h option \<Rightarrow> ('db, 'h) callback" where
  "plain_step r = new_callback\<lparr>name := fst r, handler := snd r\<rparr>"

definition plain_registration :: "string \<times> 'h option \<Rightarrow> ('db, 'h) registration" where
  "plain_registration r = Reg new_callback (fst r) (snd r)"

text \<open>What a sequence of registrations leaves compiled, and what it leaves registered.\<close>

definition compiled_after ::
  "nat \<Rightarrow> ('db, 'h) processor \<Rightarrow> ('db, 'h) registration list \<Rightarrow> 'h option list option" where
  "compiled_after fuel p rs = map_option (fns \<circ> fst) (register_all fuel p rs)"

definition registry_after ::
  "nat \<Rightarrow> ('db, 'h) processor \<Rightarrow> ('db, 'h) registration list
   \<Rightarrow> ('db, 'h) callback list option" where
  "registry_after fuel p rs = map_option (callbacks \<circ> fst) (register_all fuel p rs)"

text \<open>
  A numbering of the names satisfies the constraints of a callback: what it is \<open>after\<close>
  bears a lower number than its name, what it is \<open>before\<close> a higher one.
\<close>

definition ordered_by :: "(string \<Rightarrow> nat) \<Rightarrow> ('db, 'h) callback \<Rightarrow> bool" where
  "ordered_by pos c =
     ((after c \<noteq> [] \<longrightarrow> pos (after c) < pos (name c))
      \<and> (before c \<noteq> [] \<longrightarrow> pos (name c) < pos (before c)))"

text \<open>What one step does to \<open>sorted\<close>: it stays, or the name of the callback comes in once.\<close>

definition grows_by :: "string \<Rightarrow> string list \<Rightarrow> string list \<Rightarrow> bool" where
  "grows_by n srtd srtd' =
     (srtd' = srtd \<or> (n \<notin> set srtd \<and> set srtd' = insert n (set srtd)
        \<and> (distinct srtd \<longrightarrow> distinct srtd')))"

text \<open>What a whole call does to \<open>sorted\<close>: names of the slice come in, each once.\<close>

definition extends :: "string list \<Rightarrow> string list \<Rightarrow> string list \<Rightarrow> bool" where
  "extends names srtd srtd' =
     (set srtd \<subseteq> set srtd' \<and> set srtd' \<subseteq> set srtd \<union> set names
      \<and> (distinct srtd \<longrightarrow> distinct srtd'))"

text \<open>An \<open>after\<close> field is as it was, or holds a name that is in \<open>sorted\<close>.\<close>

definition after_kept ::
  "('db, 'h) callback list \<Rightarrow> ('db, 'h) callback list \<Rightarrow> string list \<Rightarrow> bool" where
  "after_kept cs cs' srtd' =
     (\<forall>k < length cs. after (cs' ! k) = after (cs ! k) \<or> after (cs' ! k) \<in> set srtd')"

text \<open>A stage where \<open>B\<close> is registered before \<open>A\<close>, and a numbering of its names.\<close>

definition example_constrained_stage :: "(unit, nat) processor" where
  "example_constrained_stage =
     \<lparr>db = (), Clauses = [], fns = [Some 1],
      callbacks = [\<lparr>name = ''B'', before = ''A'', after = [], remove = False, replace = False,
                    match = None, handler = Some 1\<rparr>,
                   \<lparr>name = ''A'', before = [], after = [], remove = False, replace = False,
                    match = None, handler = Some 2\<rparr>],
      logged = []\<rparr>"

definition example_numbering :: "string \<Rightarrow> nat" where
  "example_numbering n = (if n = ''A'' then 1 else 0)"

text \<open>A stage with one handler, and a database handle with one pending scope.\<close>

definition example_env :: "(nat, unit, unit) collaborators" where
  "example_env =
     \<lparr>executeScopes = (\<lambda>d. d\<lparr>scopes := tl (scopes d)\<rparr>),
      ModifyStatement = (\<lambda>v. None),
      Parse = (\<lambda>v d. (d, None)),
      is_unsupported = (\<lambda>e. False),
      reflect_value = (\<lambda>v. Some v)\<rparr>"

definition example_db :: "bool \<Rightarrow> (nat, unit, unit) DB" where
  "example_db dry =
     \<lparr>scopes = [()], BuildClauses = [], Dest = Some 7, Model = None, Table = [],
      TableExpr = None, SQL = [], Vars = [], ReflectValue = None, DryRun = dry,
      Error = [], traced = []\<rparr>"

definition example_handler :: "(nat, unit, unit) DB \<Rightarrow> (nat, unit, unit) DB" where
  "example_handler d = d\<lparr>SQL := SQL d @ ''SELECT ?'', Vars := Vars d @ [1]\<rparr>"

definition example_stage :: "(unit, (nat, unit, unit) DB \<Rightarrow> (nat, unit, unit) DB) processor" where
  "example_stage = (new_processor ())\<lparr>Clauses := [''SELECT''], fns := [Some example_handler]\<rparr>"

subsection \<open>The stable sort keeps the elements\<close>

lemma mset_swap_guarded: "mset (swap xs i j) = mset xs"
  by (simp add: swap_def mset_swap)

lemma mset_insertion_inner: "mset (insertion_inner lt xs a j) = mset xs"
  by (induction j arbitrary: xs) (simp_all add: mset_swap_guarded)

lemma mset_insertion_outer: "mset (insertion_outer lt xs a b i) = mset xs"
proof (induction lt xs a b i rule: insertion_outer.induct)
  case (1 lt xs a b i)
  then show ?case
    by (subst insertion_outer.simps) (simp add: mset_insertion_inner)
qed

lemma mset_insertionSort: "mset (insertionSort lt xs a b) = mset xs"
  by (simp add: insertionSort_def mset_insertion_outer)

lemma mset_swapRange_from: "mset (swapRange_from xs a b n i) = mset xs"
proof (induction xs a b n i rule: swapRange_from.induct)
  case (1 xs a b n i)
  then show ?case
    by (subst swapRange_from.simps) (simp add: mset_swap_guarded)
qed

lemma mset_swapRange: "mset (swapRange xs a b n) = mset xs"
  by (simp add: swapRange_def mset_swapRange_from)

lemma mset_rotate_loop: "mset (rotate_loop xs m i j) = mset xs"
proof (induction xs m i j rule: rotate_loop.induct)
  case (1 xs m i j)
  then show ?case
    by (subst rotate_loop.simps) (simp add: mset_swapRange)
qed

lemma mset_rotate_blocks: "mset (rotate_blocks xs a m b) = mset xs"
  by (simp add: rotate_blocks_def mset_rotate_loop)

lemma mset_bubble_up: "mset (bubble_up xs k i) = mset xs"
proof (induction xs k i rule: bubble_up.induct)
  case (1 xs k i)
  then show ?case
    by (subst bubble_up.simps) (simp add: mset_swap_guarded)
qed

lemma mset_bubble_down: "mset (bubble_down xs k i) = mset xs"
  by (induction k arbitrary: xs) (simp_all add: mset_swap_guarded)

lemma mset_sym_rotate: "mset (sym_rotate lt xs a m b) = mset xs"
  by (simp add: sym_rotate_def Let_def mset_rotate_blocks)

lemma mset_symMerge: "mset (symMerge lt xs a m b) = mset xs"
proof (induction "b - a" arbitrary: xs a m b rule: less_induct)
  case less
  have mid_lt: "b - sym_mid a b < b - a"
    if "sym_mid a b < sym_end lt xs a m b" "sym_end lt xs a m b < b"
    using that unfolding sym_mid_def by linarith
  have lt_mid: "sym_mid a b - a < b - a"
    if "a < sym_start lt xs a m b" "sym_start lt xs a m b < sym_mid a b"
    using that unfolding sym_mid_def by linarith
  show ?case
    by (subst symMerge.simps)
      (simp add: mset_bubble_up mset_bubble_down mset_sym_rotate less mid_lt lt_mid)
qed

lemma mset_insertion_blocks: "mset (insertion_blocks lt xs n a b) = mset xs"
proof (induction lt xs n a b rule: insertion_blocks.induct)
  case (1 lt xs n a b)
  then show ?case
    by (subst insertion_blocks.simps) (simp add: mset_insertionSort)
qed

lemma mset_merge_round: "mset (merge_round lt xs n k a b) = mset xs"
proof (induction lt xs n k a b rule: merge_round.induct)
  case (1 lt xs n k a b)
  then show ?case
    by (subst merge_round.simps) (simp add: mset_symMerge)
qed

lemma mset_merge_rounds: "mset (merge_rounds lt xs n k) = mset xs"
proof (induction lt xs n k rule: merge_rounds.induct)
  case (1 lt xs n k)
  then show ?case
    by (subst merge_rounds.simps) (simp add: mset_merge_round)
qed

lemma mset_SliceStable: "mset (SliceStable lt xs) = mset xs"
  by (simp add: SliceStable_def mset_merge_rounds mset_insertion_blocks)

lemma length_SliceStable: "length (SliceStable lt xs) = length xs"
  using mset_SliceStable [of lt xs] by (metis size_mset)

lemma set_SliceStable: "set (SliceStable lt xs) = set xs"
  using mset_SliceStable [of lt xs] by (metis set_mset_mset)

subsection \<open>Where no element is less than another, the stable sort changes nothing\<close>

lemma no_less_nth: "no_less lt xs \<Longrightarrow> i < length xs \<Longrightarrow> j < length xs \<Longrightarrow> \<not> lt (xs ! i) (xs ! j)"
  by (simp add: no_less_def)

lemma insertion_inner_id: "no_less lt xs \<Longrightarrow> insertion_inner lt xs a j = xs"
proof (induction j)
  case 0
  show ?case by simp
next
  case (Suc j)
  show ?case
  proof (cases "Suc j < length xs")
    case True
    with Suc.prems have "\<not> lt (xs ! Suc j) (xs ! j)" by (simp add: no_less_nth)
    then show ?thesis by simp
  next
    case False
    then have "swap xs (Suc j) j = xs" by (simp add: swap_def)
    with Suc show ?thesis by simp
  qed
qed

lemma insertion_outer_id: "no_less lt xs \<Longrightarrow> insertion_outer lt xs a b i = xs"
proof (induction lt xs a b i rule: insertion_outer.induct)
  case (1 lt xs a b i)
  then show ?case
    by (subst insertion_outer.simps) (simp add: insertion_inner_id)
qed

lemma insertionSort_id: "no_less lt xs \<Longrightarrow> insertionSort lt xs a b = xs"
  by (simp add: insertionSort_def insertion_outer_id)

lemma insertion_blocks_id: "no_less lt xs \<Longrightarrow> insertion_blocks lt xs n a b = xs"
proof (induction lt xs n a b rule: insertion_blocks.induct)
  case (1 lt xs n a b)
  then show ?case
    by (subst insertion_blocks.simps) (simp add: insertionSort_id)
qed

lemma search_first_id:
  "no_less lt xs \<Longrightarrow> a < length xs \<Longrightarrow> j \<le> length xs \<Longrightarrow> search_first lt xs a i j = i"
proof (induction lt xs a i j rule: search_first.induct)
  case (1 lt xs a i j)
  show ?case
  proof (cases "i < j")
    case True
    then have "(i + j) div 2 < length xs" using "1.prems" by linarith
    then have nl: "\<not> lt (xs ! ((i + j) div 2)) (xs ! a)"
      using "1.prems" by (simp add: no_less_nth)
    have "search_first lt xs a i ((i + j) div 2) = i"
      using "1.IH"(2) [OF True refl nl] "1.prems" True by simp
    then show ?thesis
      using True nl by (subst search_first.simps) simp
  next
    case False
    then show ?thesis by (subst search_first.simps) simp
  qed
qed

lemma search_last_id:
  "no_less lt xs \<Longrightarrow> m < length xs \<Longrightarrow> j \<le> length xs \<Longrightarrow> i \<le> j
   \<Longrightarrow> search_last lt xs m i j = j"
proof (induction lt xs m i j rule: search_last.induct)
  case (1 lt xs m i j)
  show ?case
  proof (cases "i < j")
    case True
    then have "(i + j) div 2 < length xs" using "1.prems" by linarith
    then have nl: "\<not> lt (xs ! m) (xs ! ((i + j) div 2))"
      using "1.prems" by (simp add: no_less_nth)
    have "search_last lt xs m ((i + j) div 2 + 1) j = j"
      using "1.IH"(1) [OF True refl nl] "1.prems" True by simp
    then show ?thesis
      using True nl by (subst search_last.simps) simp
  next
    case False
    then show ?thesis using "1.prems" by (subst search_last.simps) simp
  qed
qed

lemma search_sym_id:
  "no_less lt xs \<Longrightarrow> r \<le> length xs \<Longrightarrow> (start < r \<Longrightarrow> p - start < length xs) \<Longrightarrow> start \<le> r
   \<Longrightarrow> search_sym lt xs p start r = r"
proof (induction lt xs p start r rule: search_sym.induct)
  case (1 lt xs p start r)
  show ?case
  proof (cases "start < r")
    case True
    let ?c = "(start + r) div 2"
    have "?c < length xs" "p - ?c < length xs" using True "1.prems" by linarith+
    then have nl: "\<not> lt (xs ! (p - ?c)) (xs ! ?c)"
      using "1.prems" by (simp add: no_less_nth)
    have "p - (?c + 1) < length xs" using True "1.prems" by linarith
    then have "search_sym lt xs p (?c + 1) r = r"
      using "1.IH"(1) [OF True refl nl] "1.prems" True by simp
    then show ?thesis
      using True nl by (subst search_sym.simps) simp
  next
    case False
    then show ?thesis using "1.prems" by (subst search_sym.simps) simp
  qed
qed

lemma bubble_up_none: "i \<le> k + 1 \<Longrightarrow> bubble_up xs k i = xs"
  by (subst bubble_up.simps) simp

lemma bubble_down_none: "k \<le> i \<Longrightarrow> bubble_down xs k i = xs"
  by (cases k) simp_all

lemma symMerge_id:
  "no_less lt xs \<Longrightarrow> a \<le> m \<Longrightarrow> m \<le> b \<Longrightarrow> b \<le> length xs \<Longrightarrow> symMerge lt xs a m b = xs"
proof (induction "b - a" arbitrary: a m b rule: less_induct)
  case less
  note nl = less.prems(1)
  show ?case
  proof (cases "m - a = 1")
    case True
    then have "search_first lt xs a m b = m"
      using less.prems by (intro search_first_id) auto
    then show ?thesis
      using True by (subst symMerge.simps) (simp add: bubble_up_none)
  next
    case ma: False
    show ?thesis
  proof (cases "b - m = 1")
    case True
    then have "search_last lt xs m a m = m"
      using less.prems by (intro search_last_id) auto
    then show ?thesis
      using ma True by (subst symMerge.simps) (simp add: bubble_down_none)
  next
    case False
    let ?mid = "sym_mid a b"
    have mid: "a \<le> ?mid" "?mid \<le> b"
      using less.prems by (simp_all add: sym_mid_def)
    show ?thesis
    proof (cases "m > ?mid")
      case True
      have "search_sym lt xs (?mid + m - 1) (?mid + m - b) ?mid = ?mid"
        using less.prems mid True by (intro search_sym_id) (auto simp: sym_mid_def)
      then have st: "sym_start lt xs a m b = ?mid"
        using True by (simp add: sym_start_def Let_def)
      then have en: "sym_end lt xs a m b = m"
        by (simp add: sym_end_def)
      have rot: "sym_rotate lt xs a m b = xs"
        by (simp add: sym_rotate_def Let_def st en)
      have rec: "symMerge lt xs ?mid m b = xs" if "m < b"
      proof (rule less.hyps)
        show "b - ?mid < b - a" using that True mid less.prems by (simp add: sym_mid_def) 
      qed (use less.prems True in auto)
      show ?thesis
        using ma False by (subst symMerge.simps) (simp add: st en rot rec)
    next
      case False2: False
      have "2 * ?mid \<le> a + b" by (simp add: sym_mid_def)
      then have "?mid + m - 1 - a < length xs" if "a < m"
        using that less.prems False2 by linarith
      then have "search_sym lt xs (?mid + m - 1) a m = m"
        using less.prems by (intro search_sym_id) auto
      then have st: "sym_start lt xs a m b = m"
        using False2 by (simp add: sym_start_def Let_def)
      then have en: "sym_end lt xs a m b = ?mid"
        by (simp add: sym_end_def)
      have rot: "sym_rotate lt xs a m b = xs"
        by (simp add: sym_rotate_def Let_def st en)
      have rec: "symMerge lt xs a m ?mid = xs" if "a < m" "m < ?mid"
      proof (rule less.hyps)
        show "?mid - a < b - a" using that mid less.prems unfolding sym_mid_def by linarith
      qed (use less.prems that mid in auto)
      show ?thesis
        using ma False by (subst symMerge.simps) (simp add: st en rot rec)
    qed
  qed
  qed
qed

lemma merge_round_id:
  "no_less lt xs \<Longrightarrow> n = length xs \<Longrightarrow> b = a + 2 * blockSize k
   \<Longrightarrow> merge_round lt xs n k a b = xs"
proof (induction lt xs n k a b rule: merge_round.induct)
  case (1 lt xs n k a b)
  show ?case
  proof (cases "b \<le> n")
    case True
    have s: "symMerge lt xs a (a + blockSize k) b = xs"
      using "1.prems" True by (intro symMerge_id) auto
    show ?thesis
      using True s "1.IH" [OF True] "1.prems" by (subst merge_round.simps) simp
  next
    case False
    have "symMerge lt xs a (a + blockSize k) n = xs" if "a + blockSize k < n"
      using "1.prems" that by (intro symMerge_id) auto
    then show ?thesis
      using False by (subst merge_round.simps) simp
  qed
qed

lemma merge_rounds_id: "no_less lt xs \<Longrightarrow> n = length xs \<Longrightarrow> merge_rounds lt xs n k = xs"
proof (induction lt xs n k rule: merge_rounds.induct)
  case (1 lt xs n k)
  show ?case
  proof (cases "blockSize k < n")
    case True
    have "merge_round lt xs n k 0 (2 * blockSize k) = xs"
      using "1.prems" by (intro merge_round_id) auto
    then show ?thesis
      using True "1.IH" [OF True] "1.prems" by (subst merge_rounds.simps) simp
  next
    case False
    then show ?thesis by (subst merge_rounds.simps) simp
  qed
qed

lemma SliceStable_id: "no_less lt xs \<Longrightarrow> SliceStable lt xs = xs"
  by (simp add: SliceStable_def insertion_blocks_id merge_rounds_id)

subsection \<open>Facts about getRIndex\<close>

lemma getRIndex_None_iff: "getRIndex xs x = None \<longleftrightarrow> x \<notin> set xs"
  by (induction xs) (auto split: option.splits)

lemma getRIndex_Some_nth: "getRIndex xs x = Some i \<Longrightarrow> i < length xs \<and> xs ! i = x"
  by (induction xs arbitrary: i) (auto split: option.splits if_splits)

lemma getRIndex_Some_last:
  "getRIndex xs x = Some i \<Longrightarrow> i < j \<Longrightarrow> j < length xs \<Longrightarrow> xs ! j \<noteq> x"
proof (induction xs arbitrary: i j)
  case Nil
  then show ?case by simp
next
  case (Cons y ys)
  show ?case
  proof (cases "getRIndex ys x")
    case None
    then have "x \<notin> set ys" by (simp add: getRIndex_None_iff)
    moreover from Cons.prems obtain j' where "j = Suc j'" "j' < length ys"
      by (cases j) auto
    ultimately show ?thesis by auto
  next
    case (Some k)
    with Cons.prems have i: "i = Suc k" by simp
    with Cons.prems obtain j' where j: "j = Suc j'" "k < j'" "j' < length ys"
      by (cases j) auto
    from Cons.IH [OF Some j(2,3)] show ?thesis by (simp add: j)
  qed
qed

lemma getRIndex_distinct:
  "distinct xs \<Longrightarrow> i < length xs \<Longrightarrow> getRIndex xs (xs ! i) = Some i"
proof (induction xs arbitrary: i)
  case Nil
  then show ?case by simp
next
  case (Cons y ys)
  show ?case
  proof (cases i)
    case 0
    with Cons.prems show ?thesis by (simp add: getRIndex_None_iff split: option.splits)
  next
    case (Suc k)
    with Cons show ?thesis by simp
  qed
qed

lemma getRIndex_append_in:
  "getRIndex ys x = Some i \<Longrightarrow> getRIndex (xs @ ys) x = Some (length xs + i)"
  by (induction xs) auto

lemma getRIndex_append_notin:
  "x \<notin> set ys \<Longrightarrow> getRIndex (xs @ ys) x = getRIndex xs x"
  by (induction xs) (auto simp: getRIndex_None_iff split: option.splits)

subsection \<open>What sortCallbacks never writes\<close>

lemma map_fixed_update:
  "f c' = f (cs ! i) \<Longrightarrow> map f (cs[i := c']) = map f cs"
  by (metis list_update_beyond list_update_id map_update not_le_imp_less nth_map length_map)

lemma before_part_fixed:
  "before_part names i cs srtd = Inr (cs', srtd') \<Longrightarrow> map fixed_fields cs' = map fixed_fields cs"
  by (auto simp: before_part_def Let_def fixed_fields_def intro!: map_fixed_update
      split: if_splits option.splits)

lemma after_part_fixed:
  "after_part names i cs srtd = After_recurse idx cs' \<Longrightarrow> map fixed_fields cs' = map fixed_fields cs"
  by (auto simp: after_part_def Let_def fixed_fields_def intro!: map_fixed_update
      split: if_splits option.splits)

lemma sortCallback_fixed:
  "sortCallback fuel names i cs srtd = Some (err, cs', srtd')
   \<Longrightarrow> map fixed_fields cs' = map fixed_fields cs"
proof (induction fuel arbitrary: i cs srtd err cs' srtd')
  case 0
  then show ?case by simp
next
  case (Suc fuel)
  show ?case
  proof (cases "before_part names i cs srtd")
    case (Inl e)
    with Suc.prems show ?thesis by simp
  next
    case (Inr st)
    obtain cs1 srtd1 where st: "st = (cs1, srtd1)" by (cases st)
    note b = before_part_fixed [OF Inr [unfolded st]]
    show ?thesis
    proof (cases "after_part names i cs1 srtd1")
      case (After_error e)
      with Suc.prems Inr st b show ?thesis by simp
    next
      case (After_done s2)
      with Suc.prems Inr st b show ?thesis by auto
    next
      case (After_recurse idx cs2)
      note a = after_part_fixed [OF After_recurse]
      from Suc.prems Inr st After_recurse
      obtain e3 cs3 srtd3 where r1: "sortCallback fuel names idx cs2 srtd1 = Some (e3, cs3, srtd3)"
        by (auto split: option.splits)
      note f1 = Suc.IH [OF r1]
      show ?thesis
      proof (cases e3)
        case (Some e)
        with Suc.prems Inr st After_recurse r1 a b f1 show ?thesis by simp
      next
        case None
        with Suc.prems Inr st After_recurse r1
        obtain e4 cs4 srtd4 where r2: "sortCallback fuel names i cs3 srtd3 = Some (e4, cs4, srtd4)"
          by (auto split: option.splits)
        note f2 = Suc.IH [OF r2]
        from Suc.prems Inr st After_recurse r1 None r2 have "cs' = cs4"
          by (cases e4) auto
        with a b f1 f2 show ?thesis by simp
      qed
    qed
  qed
qed

lemma sort_loop_fixed:
  "sort_loop fuel names is cs srtd = Some (err, cs', srtd')
   \<Longrightarrow> map fixed_fields cs' = map fixed_fields cs"
proof (induction "is" arbitrary: cs srtd)
  case Nil
  then show ?case by simp
next
  case (Cons i "is")
  from Cons.prems obtain e1 cs1 srtd1 where
    r: "sortCallback fuel names i cs srtd = Some (e1, cs1, srtd1)"
    by (auto split: option.splits)
  note f = sortCallback_fixed [OF r]
  show ?case
  proof (cases e1)
    case None
    with Cons.prems r have "sort_loop fuel names is cs1 srtd1 = Some (err, cs', srtd')" by simp
    from Cons.IH [OF this] f show ?thesis by simp
  next
    case (Some e)
    with Cons.prems r f show ?thesis by simp
  qed
qed

lemma sortCallbacks_fixed:
  "sortCallbacks fuel cs = Some r
   \<Longrightarrow> map fixed_fields (sr_cs r) = map fixed_fields (SliceStable star_less cs)"
  by (auto simp: sortCallbacks_def Let_def split: option.splits prod.splits dest: sort_loop_fixed)

subsection \<open>compile and sortCallbacks\<close>

lemma compile_candidates:
  "compile fuel p =
     (case sortCallbacks fuel (candidates p) of
        None \<Rightarrow> None
      | Some r \<Rightarrow>
          Some (p\<lparr>callbacks := sr_cs r, fns := sr_fns r,
                  logged := logged p @ sr_warnings r @
                    (case sr_err r of None \<Rightarrow> [] | Some err \<Rightarrow> [Error_compile err])\<rparr>,
                sr_err r))"
proof -
  have "(if set (map name (filter remove (callbacks p))) \<noteq> {}
         then removeCallbacks (filter (matches (db p)) (callbacks p))
                (set (map name (filter remove (callbacks p))))
         else filter (matches (db p)) (callbacks p)) = candidates p"
    by (auto simp: candidates_def removeCallbacks_def filter_empty_conv intro!: filter_cong)
  then show ?thesis unfolding compile_def Let_def by (simp only:)
qed

lemma collect_names_fst_upto:
  "n \<le> length cs \<Longrightarrow> fst (foldl (names_step cs) ([], []) [0..<n]) = map name (take n cs)"
  by (induction n) (simp_all add: names_step_def Let_def take_Suc_conv_app_nth)

lemma collect_names_fst: "fst (collect_names cs) = map name cs"
  by (simp add: collect_names_def collect_names_fst_upto)


lemmas eval_defs = callback_Register_def callback_Remove_def callback_Replace_def
  Register_def Remove_def Replace_def new_processor_def new_callback_def Before_def After_def
  Match_def callback_Before_def callback_After_def

lemmas sort_defs = sortCallbacks_def collect_names_def names_step_def before_part_def
  after_part_def append_unsorted_def Let_def


lemma sortCallbacks_length:
  "sortCallbacks fuel cs = Some r \<Longrightarrow> length (sr_cs r) = length cs"
  using sortCallbacks_fixed [of fuel cs r] length_SliceStable [of star_less cs]
  by (metis length_map)

lemma sortCallbacks_mset_fixed:
  "sortCallbacks fuel cs = Some r
   \<Longrightarrow> mset (map fixed_fields (sr_cs r)) = mset (map fixed_fields cs)"
  using sortCallbacks_fixed [of fuel cs r] mset_SliceStable [of star_less cs]
  by (metis mset_map)

lemma project_fns_subset:
  "project_fns names cs srtd = Some fs \<Longrightarrow> length names = length cs
   \<Longrightarrow> set fs \<subseteq> handler ` set cs"
proof (induction srtd arbitrary: fs)
  case Nil
  then show ?case by simp
next
  case (Cons n srtd)
  from Cons.prems obtain idx fs' where i: "getRIndex names n = Some idx"
    and p: "project_fns names cs srtd = Some fs'"
    and fs: "fs = (if \<not> remove (cs ! idx) then handler (cs ! idx) # fs' else fs')"
    by (auto split: option.splits)
  from i Cons.prems(2) have "idx < length cs" by (auto dest: getRIndex_Some_nth)
  then have "handler (cs ! idx) \<in> handler ` set cs" by simp
  with Cons.IH [OF p Cons.prems(2)] fs show ?case by auto
qed

lemma sortCallbacks_fns_subset:
  assumes "sortCallbacks fuel cs = Some r"
  shows "set (sr_fns r) \<subseteq> handler ` set (sr_cs r)"
proof -
  let ?cs = "SliceStable star_less cs"
  let ?names = "fst (collect_names ?cs)"
  from assms obtain e cs1 srtd where
    l: "sort_loop fuel ?names [0..<length ?cs] ?cs [] = Some (e, cs1, srtd)"
    by (auto simp: sortCallbacks_def Let_def split: option.splits)
  have len: "length ?names = length cs1"
    using sort_loop_fixed [OF l] by (metis collect_names_fst length_map)
  show ?thesis
  proof (cases e)
    case (Some err)
    with assms l have "sr_fns r = []" by (auto simp: sortCallbacks_def Let_def)
    then show ?thesis by simp
  next
    case None
    with assms l obtain fs where "project_fns ?names cs1 srtd = Some fs"
      and "r = \<lparr>sr_cs = cs1, sr_warnings = snd (collect_names ?cs), sr_fns = fs, sr_err = None\<rparr>"
      by (auto simp: sortCallbacks_def Let_def split: option.splits)
    with project_fns_subset [OF _ len] show ?thesis by simp
  qed
qed

subsection \<open>An error names a callback of the slice\<close>

lemma before_part_error:
  "before_part names i cs srtd = Inl err \<Longrightarrow> \<exists>t. err = conflict_msg (name (cs ! i)) t"
  by (auto simp: before_part_def Let_def split: if_splits option.splits)

lemma after_part_error:
  "after_part names i cs srtd = After_error err \<Longrightarrow> \<exists>t. err = conflict_msg (name (cs ! i)) t"
  by (auto simp: after_part_def Let_def split: if_splits option.splits)

lemma after_part_recurse_index:
  "after_part names i cs srtd = After_recurse idx cs' \<Longrightarrow> idx < length names"
  by (auto simp: after_part_def Let_def split: if_splits option.splits dest: getRIndex_Some_nth)

lemma fixed_name: "map fixed_fields cs' = map fixed_fields cs \<Longrightarrow> map name cs' = map name cs"
proof -
  assume "map fixed_fields cs' = map fixed_fields cs"
  then have "map (fst \<circ> fixed_fields) cs' = map (fst \<circ> fixed_fields) cs"
    by (metis map_map)
  moreover have "fst \<circ> fixed_fields = (name :: ('a, 'b) callback \<Rightarrow> string)"
    by (auto simp: fixed_fields_def)
  ultimately show ?thesis by simp
qed

lemma sortCallback_error:
  "sortCallback fuel names i cs srtd = Some (Some err, cs', srtd') \<Longrightarrow> i < length cs
   \<Longrightarrow> length names = length cs
   \<Longrightarrow> \<exists>j < length cs. \<exists>t. err = conflict_msg (name (cs ! j)) t"
proof (induction fuel arbitrary: i cs srtd cs' srtd')
  case 0
  then show ?case by simp
next
  case (Suc fuel)
  show ?case
  proof (cases "before_part names i cs srtd")
    case (Inl e)
    with Suc.prems before_part_error [OF Inl] show ?thesis by auto
  next
    case (Inr st)
    obtain cs1 srtd1 where st: "st = (cs1, srtd1)" by (cases st)
    note b = before_part_fixed [OF Inr [unfolded st]]
    then have n1: "map name cs1 = map name cs" by (rule fixed_name)
    then have nth1: "\<And>j. j < length cs \<Longrightarrow> name (cs1 ! j) = name (cs ! j)"
      by (metis length_map nth_map)
    show ?thesis
    proof (cases "after_part names i cs1 srtd1")
      case (After_error e)
      with Suc.prems Inr st after_part_error [OF After_error] nth1 show ?thesis by auto
    next
      case (After_done s2)
      with Suc.prems Inr st show ?thesis by auto
    next
      case (After_recurse idx cs2)
      note a = after_part_fixed [OF After_recurse]
      then have n2: "map name cs2 = map name cs1" by (rule fixed_name)
      have len2: "length cs2 = length cs" using n1 n2 by (metis length_map)
      have idx: "idx < length cs2"
        using after_part_recurse_index [OF After_recurse] Suc.prems len2 by simp
      have nth2: "\<And>j. j < length cs \<Longrightarrow> name (cs2 ! j) = name (cs ! j)"
        using n1 n2 by (metis length_map nth_map)
      from Suc.prems Inr st After_recurse
      obtain e3 cs3 srtd3 where r1: "sortCallback fuel names idx cs2 srtd1 = Some (e3, cs3, srtd3)"
        by (auto split: option.splits)
      show ?thesis
      proof (cases e3)
        case (Some e)
        with Suc.prems Inr st After_recurse r1 have "e = err" by simp
        with r1 Some have r1': "sortCallback fuel names idx cs2 srtd1 = Some (Some err, cs3, srtd3)"
          by simp
        from Suc.IH [OF r1' idx] Suc.prems len2 obtain j t where
          "j < length cs" "err = conflict_msg (name (cs2 ! j)) t" by auto
        with nth2 show ?thesis by auto
      next
        case None
        note f1 = sortCallback_fixed [OF r1]
        then have n3: "map name cs3 = map name cs2" by (rule fixed_name)
        have len3: "length cs3 = length cs" using n3 len2 by (metis length_map)
        have nth3: "\<And>j. j < length cs \<Longrightarrow> name (cs3 ! j) = name (cs ! j)"
          using n3 nth2 len2 by (metis length_map nth_map)
        from Suc.prems Inr st After_recurse r1 None
        obtain e4 cs4 srtd4 where r2: "sortCallback fuel names i cs3 srtd3 = Some (e4, cs4, srtd4)"
          by (auto split: option.splits)
        from Suc.prems Inr st After_recurse r1 None r2 have "e4 = Some err"
          by (cases e4) auto
        with Suc.IH [of i cs3 srtd3 cs4 srtd4] r2 Suc.prems len3 obtain j t where
          "j < length cs" "err = conflict_msg (name (cs3 ! j)) t" by auto
        with nth3 show ?thesis by auto
      qed
    qed
  qed
qed

lemma sort_loop_error:
  "sort_loop fuel names is cs srtd = Some (Some err, cs', srtd') \<Longrightarrow> \<forall>i \<in> set is. i < length cs
   \<Longrightarrow> length names = length cs
   \<Longrightarrow> \<exists>j < length cs. \<exists>t. err = conflict_msg (name (cs ! j)) t"
proof (induction "is" arbitrary: cs srtd)
  case Nil
  then show ?case by simp
next
  case (Cons i "is")
  from Cons.prems obtain e1 cs1 srtd1 where
    r: "sortCallback fuel names i cs srtd = Some (e1, cs1, srtd1)"
    by (auto split: option.splits)
  show ?case
  proof (cases e1)
    case None
    note f = sortCallback_fixed [OF r]
    then have n1: "map name cs1 = map name cs" by (rule fixed_name)
    then have len: "length cs1 = length cs" by (metis length_map)
    have nth1: "\<And>j. j < length cs \<Longrightarrow> name (cs1 ! j) = name (cs ! j)"
      using n1 by (metis length_map nth_map)
    from None Cons.prems r have "sort_loop fuel names is cs1 srtd1 = Some (Some err, cs', srtd')"
      by simp
    from Cons.IH [OF this] Cons.prems len obtain j t where
      "j < length cs" "err = conflict_msg (name (cs1 ! j)) t" by auto
    with nth1 show ?thesis by auto
  next
    case (Some e)
    with Cons.prems r have "e = err" by simp
    with sortCallback_error [OF r [unfolded Some]] Cons.prems show ?thesis by auto
  qed
qed

lemma sortCallbacks_error:
  assumes "sortCallbacks fuel cs = Some r" "sr_err r = Some err"
  shows "sr_fns r = [] \<and> (\<exists>x \<in> set (sr_cs r). \<exists>t. err = conflict_msg (name x) t)"
proof -
  let ?cs = "SliceStable star_less cs"
  let ?names = "fst (collect_names ?cs)"
  from assms obtain cs1 srtd where
    l: "sort_loop fuel ?names [0..<length ?cs] ?cs [] = Some (Some err, cs1, srtd)"
    and r: "r = \<lparr>sr_cs = cs1, sr_warnings = snd (collect_names ?cs), sr_fns = [], sr_err = Some err\<rparr>"
    by (auto simp: sortCallbacks_def Let_def split: option.splits)
  have "length ?names = length ?cs" by (simp add: collect_names_fst)
  from sort_loop_error [OF l _ this] obtain j t where
    j: "j < length ?cs" "err = conflict_msg (name (?cs ! j)) t" by auto
  have "map name cs1 = map name ?cs" using sort_loop_fixed [OF l] by (rule fixed_name)
  with j have "j < length cs1" "name (cs1 ! j) = name (?cs ! j)"
    by (metis length_map, metis length_map nth_map)
  with j r show ?thesis by (auto intro!: bexI [of _ "cs1 ! j"])
qed

lemma compile_registry:
  assumes "compile fuel p = Some (p', err)"
  shows "mset (map fixed_fields (callbacks p')) = mset (map fixed_fields (candidates p))"
    and "set (fns p') \<subseteq> handler ` set (callbacks p')"
    and "err = Some e \<Longrightarrow> fns p' = [] \<and> (\<exists>x \<in> set (callbacks p'). \<exists>t. e = conflict_msg (name x) t)"
proof -
  from assms obtain r where r: "sortCallbacks fuel (candidates p) = Some r"
    and p': "callbacks p' = sr_cs r" "fns p' = sr_fns r" and e: "err = sr_err r"
    by (auto simp: compile_candidates split: option.splits)
  show "mset (map fixed_fields (callbacks p')) = mset (map fixed_fields (candidates p))"
    using sortCallbacks_mset_fixed [OF r] p' by simp
  show "set (fns p') \<subseteq> handler ` set (callbacks p')"
    using sortCallbacks_fns_subset [OF r] p' by simp
  show "fns p' = [] \<and> (\<exists>x \<in> set (callbacks p'). \<exists>t. e = conflict_msg (name x) t)"
    if "err = Some e"
    using sortCallbacks_error [OF r, of e] that e p' by simp
qed

lemma name_fixed_fields: "name c = fst (fixed_fields c)"
  by (simp add: fixed_fields_def)

lemma compile_names:
  assumes "compile fuel p = Some (p', err)"
  shows "set (map name (callbacks p')) = set (map name (candidates p))"
proof -
  have "set (map fixed_fields (callbacks p')) = set (map fixed_fields (candidates p))"
    using compile_registry(1) [OF assms] by (rule mset_eq_setD)
  then have "fst ` set (map fixed_fields (callbacks p')) = fst ` set (map fixed_fields (candidates p))"
    by (rule arg_cong)
  then show ?thesis
    by (simp add: image_image name_fixed_fields [symmetric])
qed

lemma SliceStable_Nil: "SliceStable lt [] = []"
  by (rule SliceStable_id) (simp add: no_less_def)

lemma SliceStable_single: "SliceStable star_less [c] = [c]"
  by (rule SliceStable_id) (simp add: no_less_def star_less_def)

subsection \<open>Evaluating a compilation step by step\<close>

lemma sortCallbacks_unfold:
  assumes "SliceStable star_less cs = cs'"
  shows "sortCallbacks fuel cs =
     (case sort_loop fuel (map name cs') [0..<length cs'] cs' [] of
        None \<Rightarrow> None
      | Some (Some err, cs1, srtd) \<Rightarrow>
          Some \<lparr>sr_cs = cs1, sr_warnings = snd (collect_names cs'), sr_fns = [], sr_err = Some err\<rparr>
      | Some (None, cs1, srtd) \<Rightarrow>
          (case project_fns (map name cs') cs1 srtd of
             None \<Rightarrow> None
           | Some fs \<Rightarrow>
               Some \<lparr>sr_cs = cs1, sr_warnings = snd (collect_names cs'), sr_fns = fs, sr_err = None\<rparr>))"
  by (simp add: sortCallbacks_def Let_def assms collect_names_fst)

lemma upt_2: "[0..<Suc (Suc 0)] = [0, Suc 0]"
  by (simp add: upt_rec)

declare sortCallback.simps [simp del]

lemmas step_defs = sortCallback.simps before_part_def after_part_def append_unsorted_def Let_def

lemmas reg_defs = callback_Register_def callback_Remove_def callback_Replace_def
  new_processor_def new_callback_def Before_def After_def Match_def compile_candidates
  candidates_def matches_def

text \<open>Two callbacks that are each registered \<open>before\<close> the other.\<close>

lemma mutual_before_first:
  assumes "a \<noteq> b" "b \<noteq> ''*''"
  shows "callback_Register (Suc fuel) (new_processor d) (Before b) a ha
      = Some (\<lparr>db = d, Clauses = [], fns = [ha],
               callbacks = [\<lparr>name = a, before = b, after = [], remove = False, replace = False,
                             match = None, handler = ha\<rparr>],
               logged = []\<rparr>, None)"
proof -
  let ?A = "\<lparr>name = a, before = b, after = [], remove = False, replace = False,
             match = None, handler = ha\<rparr> :: ('a, 'b) callback"
  have k: "sortCallback (Suc fuel) [a] 0 [?A] [] = Some (None, [?A], [a])"
    using assms by (simp add: step_defs)
  have w: "snd (collect_names [?A]) = []"
    by (simp add: collect_names_def names_step_def Let_def)
  have s: "sortCallbacks (Suc fuel) [?A]
      = Some \<lparr>sr_cs = [?A], sr_warnings = [], sr_fns = [ha], sr_err = None\<rparr>"
    by (simp add: sortCallbacks_unfold [OF SliceStable_single] k w)
  show ?thesis
    by (simp add: reg_defs s)
qed

lemma mutual_before_second:
  assumes "a \<noteq> b" "a \<noteq> ''*''" "b \<noteq> ''*''" "a \<noteq> []" "b \<noteq> []"
  shows "callback_Register (Suc fuel)
       \<lparr>db = d, Clauses = [], fns = [ha],
        callbacks = [\<lparr>name = a, before = b, after = [], remove = False, replace = False,
                      match = None, handler = ha\<rparr>],
        logged = []\<rparr> (Before a) b hb
      = Some (\<lparr>db = d, Clauses = [], fns = [],
               callbacks = [\<lparr>name = a, before = b, after = [], remove = False, replace = False,
                             match = None, handler = ha\<rparr>,
                            \<lparr>name = b, before = a, after = a, remove = False, replace = False,
                             match = None, handler = hb\<rparr>],
               logged = [Error_compile (conflict_msg b a)]\<rparr>, Some (conflict_msg b a))"
proof -
  let ?A = "\<lparr>name = a, before = b, after = [], remove = False, replace = False,
             match = None, handler = ha\<rparr> :: ('a, 'b) callback"
  let ?B = "\<lparr>name = b, before = a, after = [], remove = False, replace = False,
             match = None, handler = hb\<rparr> :: ('a, 'b) callback"
  let ?B' = "\<lparr>name = b, before = a, after = a, remove = False, replace = False,
             match = None, handler = hb\<rparr> :: ('a, 'b) callback"
  have s2: "SliceStable star_less [?A, ?B] = [?A, ?B]"
    by (rule SliceStable_id) (simp add: no_less_def star_less_def assms)
  have k1: "sortCallback (Suc fuel) [a, b] 0 [?A, ?B] [] = Some (None, [?A, ?B'], [a])"
    using assms by (simp add: step_defs)
  have k2: "sortCallback (Suc fuel) [a, b] (Suc 0) [?A, ?B'] [a]
      = Some (Some (conflict_msg b a), [?A, ?B'], [b, a])"
    using assms by (simp add: step_defs)
  have w: "snd (collect_names [?A, ?B]) = []"
    using assms by (simp add: collect_names_def names_step_def Let_def upt_2)
  have s: "sortCallbacks (Suc fuel) [?A, ?B]
      = Some \<lparr>sr_cs = [?A, ?B'], sr_warnings = [], sr_fns = [], sr_err = Some (conflict_msg b a)\<rparr>"
    by (simp add: sortCallbacks_unfold [OF s2] upt_2 k1 k2 w)
  show ?thesis
    by (simp add: reg_defs s)
qed

subsection \<open>Small stages, step by step\<close>

text \<open>A plain registration on a fresh stage, a second one of the same name, a removal.\<close>

lemma register_plain_first:
  "callback_Register (Suc fuel) (new_processor d) new_callback n h1
      = Some (\<lparr>db = d, Clauses = [], fns = [h1],
               callbacks = [\<lparr>name = n, before = [], after = [], remove = False, replace = False,
                             match = None, handler = h1\<rparr>],
               logged = []\<rparr>, None)"
proof -
  let ?A = "\<lparr>name = n, before = [], after = [], remove = False, replace = False,
             match = None, handler = h1\<rparr> :: ('a, 'b) callback"
  have k: "sortCallback (Suc fuel) [n] 0 [?A] [] = Some (None, [?A], [n])"
    by (simp add: step_defs)
  have w: "snd (collect_names [?A]) = []"
    by (simp add: collect_names_def names_step_def Let_def)
  have s: "sortCallbacks (Suc fuel) [?A]
      = Some \<lparr>sr_cs = [?A], sr_warnings = [], sr_fns = [h1], sr_err = None\<rparr>"
    by (simp add: sortCallbacks_unfold [OF SliceStable_single] k w)
  show ?thesis
    by (simp add: reg_defs s)
qed

lemma register_duplicate_second:
  "callback_Register (Suc fuel)
       \<lparr>db = d, Clauses = [], fns = [h1],
        callbacks = [\<lparr>name = n, before = [], after = [], remove = False, replace = False,
                      match = None, handler = h1\<rparr>],
        logged = []\<rparr> new_callback n h2
      = Some (\<lparr>db = d, Clauses = [], fns = [h2],
               callbacks = [\<lparr>name = n, before = [], after = [], remove = False, replace = False,
                             match = None, handler = h1\<rparr>,
                            \<lparr>name = n, before = [], after = [], remove = False, replace = False,
                             match = None, handler = h2\<rparr>],
               logged = [Warn_duplicated n]\<rparr>, None)"
proof -
  let ?A = "\<lparr>name = n, before = [], after = [], remove = False, replace = False,
             match = None, handler = h1\<rparr> :: ('a, 'b) callback"
  let ?B = "\<lparr>name = n, before = [], after = [], remove = False, replace = False,
             match = None, handler = h2\<rparr> :: ('a, 'b) callback"
  have s2: "SliceStable star_less [?A, ?B] = [?A, ?B]"
    by (rule SliceStable_id) (simp add: no_less_def star_less_def)
  have k1: "sortCallback (Suc fuel) [n, n] 0 [?A, ?B] [] = Some (None, [?A, ?B], [n])"
    by (simp add: step_defs)
  have k2: "sortCallback (Suc fuel) [n, n] (Suc 0) [?A, ?B] [n] = Some (None, [?A, ?B], [n])"
    by (simp add: step_defs)
  have w: "snd (collect_names [?A, ?B]) = [Warn_duplicated n]"
    by (simp add: collect_names_def names_step_def Let_def upt_2)
  have s: "sortCallbacks (Suc fuel) [?A, ?B]
      = Some \<lparr>sr_cs = [?A, ?B], sr_warnings = [Warn_duplicated n], sr_fns = [h2], sr_err = None\<rparr>"
    by (simp add: sortCallbacks_unfold [OF s2] upt_2 k1 k2 w)
  show ?thesis
    by (simp add: reg_defs s)
qed

lemma sortCallbacks_Nil:
  "sortCallbacks fuel [] = Some \<lparr>sr_cs = [], sr_warnings = [], sr_fns = [], sr_err = None\<rparr>"
  by (simp add: sortCallbacks_unfold [OF SliceStable_Nil] collect_names_def)

lemma remove_only_step:
  "callback_Remove (Suc fuel)
       \<lparr>db = d, Clauses = [], fns = [h1],
        callbacks = [\<lparr>name = n, before = [], after = [], remove = False, replace = False,
                      match = None, handler = h1\<rparr>],
        logged = []\<rparr> new_callback n
      = Some (\<lparr>db = d, Clauses = [], fns = [], callbacks = [], logged = [Warn_removing n]\<rparr>, None)"
  by (simp add: reg_defs sortCallbacks_Nil)

lemma register_after_remove:
  "callback_Register (Suc fuel)
       \<lparr>db = d, Clauses = [], fns = [], callbacks = [], logged = [Warn_removing n]\<rparr>
       new_callback n h2
      = Some (\<lparr>db = d, Clauses = [], fns = [h2],
               callbacks = [\<lparr>name = n, before = [], after = [], remove = False, replace = False,
                             match = None, handler = h2\<rparr>],
               logged = [Warn_removing n]\<rparr>, None)"
proof -
  let ?A = "\<lparr>name = n, before = [], after = [], remove = False, replace = False,
             match = None, handler = h2\<rparr> :: ('a, 'b) callback"
  have k: "sortCallback (Suc fuel) [n] 0 [?A] [] = Some (None, [?A], [n])"
    by (simp add: step_defs)
  have w: "snd (collect_names [?A]) = []"
    by (simp add: collect_names_def names_step_def Let_def)
  have s: "sortCallbacks (Suc fuel) [?A]
      = Some \<lparr>sr_cs = [?A], sr_warnings = [], sr_fns = [h2], sr_err = None\<rparr>"
    by (simp add: sortCallbacks_unfold [OF SliceStable_single] k w)
  show ?thesis
    by (simp add: reg_defs s)
qed

lemma register_unmatched_first:
  "\<not> fc d \<Longrightarrow> callback_Register (Suc fuel) (new_processor d) (Match fc) n h1
      = Some (new_processor d, None)"
  by (simp add: reg_defs sortCallbacks_Nil)

text \<open>A callback registered after one that declares \<open>before\<close> it.\<close>

lemma register_target_second:
  assumes "x \<noteq> y" "x \<noteq> ''*''" "y \<noteq> ''*''" "x \<noteq> []" "y \<noteq> []"
  shows "callback_Register (Suc fuel)
       \<lparr>db = d, Clauses = [], fns = [hx],
        callbacks = [\<lparr>name = x, before = y, after = [], remove = False, replace = False,
                      match = None, handler = hx\<rparr>],
        logged = []\<rparr> new_callback y hy
      = Some (\<lparr>db = d, Clauses = [], fns = [hx, hy],
               callbacks = [\<lparr>name = x, before = y, after = [], remove = False, replace = False,
                             match = None, handler = hx\<rparr>,
                            \<lparr>name = y, before = [], after = x, remove = False, replace = False,
                             match = None, handler = hy\<rparr>],
               logged = []\<rparr>, None)"
proof -
  let ?X = "\<lparr>name = x, before = y, after = [], remove = False, replace = False,
             match = None, handler = hx\<rparr> :: ('a, 'b) callback"
  let ?Y = "\<lparr>name = y, before = [], after = [], remove = False, replace = False,
             match = None, handler = hy\<rparr> :: ('a, 'b) callback"
  let ?Y' = "\<lparr>name = y, before = [], after = x, remove = False, replace = False,
             match = None, handler = hy\<rparr> :: ('a, 'b) callback"
  have s2: "SliceStable star_less [?X, ?Y] = [?X, ?Y]"
    by (rule SliceStable_id) (simp add: no_less_def star_less_def assms)
  have k1: "sortCallback (Suc fuel) [x, y] 0 [?X, ?Y] [] = Some (None, [?X, ?Y'], [x])"
    using assms by (simp add: step_defs)
  have k2: "sortCallback (Suc fuel) [x, y] (Suc 0) [?X, ?Y'] [x] = Some (None, [?X, ?Y'], [x, y])"
    using assms by (simp add: step_defs)
  have w: "snd (collect_names [?X, ?Y]) = []"
    using assms by (simp add: collect_names_def names_step_def Let_def upt_2)
  have s: "sortCallbacks (Suc fuel) [?X, ?Y]
      = Some \<lparr>sr_cs = [?X, ?Y'], sr_warnings = [], sr_fns = [hx, hy], sr_err = None\<rparr>"
    using assms by (simp add: sortCallbacks_unfold [OF s2] upt_2 k1 k2 w)
  show ?thesis
    by (simp add: reg_defs s)
qed

lemma upt_3: "[0..<Suc (Suc (Suc 0))] = [0, Suc 0, Suc (Suc 0)]"
  by (simp add: upt_rec)




subsection \<open>Callbacks without constraints\<close>

lemma names_step_apply:
  "names_step cs st k =
     (fst st @ [name (cs ! k)],
      (case getRIndex (fst st) (name (cs ! k)) of
         Some idx \<Rightarrow>
           if \<not> replace (cs ! k) \<and> \<not> remove (cs ! k) \<and> \<not> remove (cs ! idx)
           then snd st @ [Warn_duplicated (name (cs ! k))] else snd st
       | None \<Rightarrow> snd st))"
  by (simp add: names_step_def Let_def)

lemma collect_names_snd_upto:
  "distinct (map name cs) \<Longrightarrow> n \<le> length cs
   \<Longrightarrow> snd (foldl (names_step cs) ([], []) [0..<n]) = []"
proof (induction n)
  case 0
  show ?case by simp
next
  case (Suc n)
  define st where "st = foldl (names_step cs) ([], []) [0..<n]"
  have step: "foldl (names_step cs) ([], []) [0..<Suc n] = names_step cs st n"
    by (simp add: st_def)
  from Suc.prems have "name (cs ! n) \<notin> set (map name (take n cs))"
    by (auto simp: distinct_conv_nth in_set_conv_nth)
  then have g: "getRIndex (map name (take n cs)) (name (cs ! n)) = None"
    by (simp add: getRIndex_None_iff)
  from Suc.prems have f: "fst st = map name (take n cs)"
    by (simp add: st_def collect_names_fst_upto)
  from Suc have e: "snd st = []" by (simp add: st_def)
  show ?case
    unfolding step by (simp add: names_step_apply f e g)
qed

lemma collect_names_distinct: "distinct (map name cs) \<Longrightarrow> snd (collect_names cs) = []"
  by (simp add: collect_names_def collect_names_snd_upto)

lemma sortCallback_unconstrained:
  "before (cs ! i) = [] \<Longrightarrow> after (cs ! i) = []
   \<Longrightarrow> sortCallback (Suc fuel) names i cs srtd = Some (None, cs, append_unsorted cs i srtd)"
  by (simp add: sortCallback.simps before_part_def after_part_def Let_def)

lemma sort_loop_unconstrained:
  assumes "\<forall>c \<in> set cs. before c = [] \<and> after c = []" "distinct (map name cs)"
  shows "k \<le> length cs
   \<Longrightarrow> sort_loop (Suc fuel) names [k..<length cs] cs (map name (take k cs))
       = Some (None, cs, map name cs)"
proof (induction "length cs - k" arbitrary: k)
  case 0
  then show ?case by simp
next
  case (Suc m)
  then have k: "k < length cs" by simp
  then have u: "[k..<length cs] = k # [Suc k..<length cs]" by (simp add: upt_rec)
  from k assms(1) have c: "before (cs ! k) = []" "after (cs ! k) = []" by auto
  from k assms(2) have "name (cs ! k) \<notin> set (map name (take k cs))"
    by (auto simp: distinct_conv_nth in_set_conv_nth)
  then have a: "append_unsorted cs k (map name (take k cs)) = map name (take (Suc k) cs)"
    using k by (simp add: append_unsorted_def getRIndex_None_iff [THEN iffD2]
        take_Suc_conv_app_nth)
  from Suc.hyps(2) have "m = length cs - Suc k" by simp
  from Suc.hyps(1) [OF this] k
  have "sort_loop (Suc fuel) names [Suc k..<length cs] cs (map name (take (Suc k) cs))
      = Some (None, cs, map name cs)" by simp
  then show ?case
    by (simp add: u sortCallback_unconstrained [OF c] a)
qed

lemma project_fns_indices:
  assumes "distinct (map name cs)" "\<forall>c \<in> set cs. \<not> remove c"
  shows "\<forall>i \<in> set is. i < length cs
   \<Longrightarrow> project_fns (map name cs) cs (map (\<lambda>i. name (cs ! i)) is)
       = Some (map (\<lambda>i. handler (cs ! i)) is)"
proof (induction "is")
  case Nil
  show ?case by simp
next
  case (Cons i "is")
  then have i: "i < length cs" by simp
  with assms(1) have "getRIndex (map name cs) (map name cs ! i) = Some i"
    by (intro getRIndex_distinct) simp_all
  with i have g: "getRIndex (map name cs) (name (cs ! i)) = Some i" by simp
  from i assms(2) have "\<not> remove (cs ! i)" by simp
  with Cons g show ?case by simp
qed

lemma project_fns_all:
  assumes "distinct (map name cs)" "\<forall>c \<in> set cs. \<not> remove c"
  shows "project_fns (map name cs) cs (map name cs) = Some (map handler cs)"
proof -
  have a: "map (\<lambda>i. name (cs ! i)) [0..<length cs] = map name cs"
    by (rule nth_equalityI) simp_all
  have b: "map (\<lambda>i. handler (cs ! i)) [0..<length cs] = map handler cs"
    by (rule nth_equalityI) simp_all
  have "project_fns (map name cs) cs (map (\<lambda>i. name (cs ! i)) [0..<length cs])
      = Some (map (\<lambda>i. handler (cs ! i)) [0..<length cs])"
    by (rule project_fns_indices [OF assms]) simp
  then show ?thesis by (simp only: a b)
qed

lemma sortCallbacks_unconstrained:
  assumes "\<forall>c \<in> set cs. unconstrained c" "distinct (map name cs)"
  shows "sortCallbacks (Suc fuel) cs
      = Some \<lparr>sr_cs = cs, sr_warnings = [], sr_fns = map handler cs, sr_err = None\<rparr>"
proof -
  have s: "SliceStable star_less cs = cs"
    using assms(1) by (intro SliceStable_id) (auto simp: no_less_def star_less_def unconstrained_def)
  have l: "sort_loop (Suc fuel) (map name cs) [0..<length cs] cs [] = Some (None, cs, map name cs)"
    using sort_loop_unconstrained [of cs 0 fuel "map name cs"] assms
    by (simp add: unconstrained_def)
  have p: "project_fns (map name cs) cs (map name cs) = Some (map handler cs)"
    using assms by (intro project_fns_all) (auto simp: unconstrained_def)
  show ?thesis
    by (simp add: sortCallbacks_unfold [OF s] l p collect_names_distinct [OF assms(2)])
qed

lemma candidates_unconstrained:
  "\<forall>c \<in> set (callbacks p). unconstrained c \<Longrightarrow> candidates p = callbacks p"
  by (auto simp: candidates_def unconstrained_def matches_def filter_id_conv)

lemma Register_unconstrained:
  assumes "\<forall>c \<in> set (callbacks p). unconstrained c" "distinct (map name (callbacks p) @ [n])"
  shows "callback_Register (Suc fuel) p new_callback n fn
      = Some (p\<lparr>callbacks := callbacks p @ [plain_step (n, fn)],
                fns := map handler (callbacks p) @ [fn]\<rparr>, None)"
proof -
  let ?cs = "callbacks p @ [plain_step (n, fn)]"
  let ?p = "p\<lparr>callbacks := ?cs\<rparr>"
  have u: "\<forall>c \<in> set ?cs. unconstrained c"
    using assms(1) by (auto simp: unconstrained_def plain_step_def new_callback_def)
  have d: "distinct (map name ?cs)"
    using assms(2) by (simp add: plain_step_def)
  have c: "candidates ?p = ?cs"
    using candidates_unconstrained [of ?p] u by simp
  have "compile (Suc fuel) ?p = Some (?p\<lparr>callbacks := ?cs, fns := map handler ?cs\<rparr>, None)"
    by (simp add: compile_candidates c sortCallbacks_unconstrained [OF u d])
  then show ?thesis
    by (simp add: callback_Register_def plain_step_def)
qed

lemma register_all_unconstrained:
  "\<forall>c \<in> set (callbacks p). unconstrained c
   \<Longrightarrow> distinct (map name (callbacks p) @ map fst regs)
   \<Longrightarrow> fns p = map handler (callbacks p)
   \<Longrightarrow> register_all (Suc fuel) p (map plain_registration regs)
       = Some (p\<lparr>callbacks := callbacks p @ map plain_step regs,
                 fns := map handler (callbacks p) @ map snd regs\<rparr>,
               replicate (length regs) None)"
proof (induction regs arbitrary: p)
  case Nil
  then show ?case by simp
next
  case (Cons r regs)
  obtain n fn where r: "r = (n, fn)" by (cases r)
  let ?p1 = "p\<lparr>callbacks := callbacks p @ [plain_step (n, fn)],
               fns := map handler (callbacks p) @ [fn]\<rparr>"
  have 1: "callback_Register (Suc fuel) p new_callback n fn = Some (?p1, None)"
    using Cons.prems by (intro Register_unconstrained) (auto simp: r)
  have u: "\<forall>c \<in> set (callbacks ?p1). unconstrained c"
    using Cons.prems(1) by (auto simp: unconstrained_def plain_step_def new_callback_def)
  have d: "distinct (map name (callbacks ?p1) @ map fst regs)"
    using Cons.prems(2) by (simp add: r plain_step_def)
  have f: "fns ?p1 = map handler (callbacks ?p1)"
    by (simp add: plain_step_def)
  from Cons.IH [OF u d f] 1 show ?case
    by (simp add: r plain_registration_def plain_step_def)
qed

subsection \<open>The steps of sortCallback\<close>

lemma getRIndex_Some_mem: "getRIndex xs x = Some i \<Longrightarrow> x \<in> set xs"
  by (metis getRIndex_None_iff option.distinct(1))

lemma before_part_cases:
  assumes "before_part names i cs srtd = Inr (cs1, srtd1)"
  shows "(cs1 = cs \<and> srtd1 = srtd)
       \<or> (cs1 = cs \<and> name (cs ! i) \<notin> set srtd \<and> before (cs ! i) \<noteq> []
           \<and> (\<exists>k \<le> length srtd. srtd1 = take k srtd @ name (cs ! i) # drop k srtd))
       \<or> (srtd1 = srtd \<and> before (cs ! i) \<noteq> [] \<and>
           (\<exists>idx. getRIndex names (before (cs ! i)) = Some idx
                  \<and> cs1 = cs[idx := (cs ! idx)\<lparr>after := name (cs ! i)\<rparr>]))"
proof -
  have ins: "\<exists>k \<le> length srtd. n # srtd = take k srtd @ n # drop k srtd" for n :: string
    by (rule exI [of _ 0]) simp
  have ins2: "\<exists>k \<le> length srtd. take j srtd @ n # drop j srtd = take k srtd @ n # drop k srtd"
    if "j < length srtd" for n :: string and j
    using that by (intro exI [of _ j]) simp
  from assms show ?thesis
    by (auto simp: before_part_def Let_def getRIndex_None_iff ins
        split: if_splits option.splits dest!: getRIndex_Some_nth intro!: ins2)
qed

lemma after_part_done_cases:
  assumes "after_part names i cs srtd = After_done srtd2"
  shows "srtd2 = srtd \<or> (name (cs ! i) \<notin> set srtd \<and> srtd2 = srtd @ [name (cs ! i)])"
  using assms
  by (auto simp: after_part_def Let_def getRIndex_None_iff split: if_splits option.splits)

lemma after_part_recurse_cases:
  assumes "after_part names i cs srtd = After_recurse idx cs2"
  shows "after (cs ! i) \<noteq> [] \<and> getRIndex names (after (cs ! i)) = Some idx
       \<and> after (cs ! i) \<notin> set srtd
       \<and> (cs2 = cs \<or> (before (cs ! idx) = [] \<and> cs2 = cs[idx := (cs ! idx)\<lparr>before := name (cs ! i)\<rparr>]))"
  using assms
  by (auto simp: after_part_def Let_def getRIndex_None_iff split: if_splits option.splits)

lemma append_unsorted_cases:
  "append_unsorted cs i srtd = srtd \<and> name (cs ! i) \<in> set srtd
   \<or> append_unsorted cs i srtd = srtd @ [name (cs ! i)] \<and> name (cs ! i) \<notin> set srtd"
  by (auto simp: append_unsorted_def getRIndex_None_iff split: option.splits
      dest: getRIndex_Some_mem)

lemma grows_by_insert:
  "n \<notin> set srtd \<Longrightarrow> k \<le> length srtd \<Longrightarrow> grows_by n srtd (take k srtd @ n # drop k srtd)"
proof -
  assume n: "n \<notin> set srtd" and k: "k \<le> length srtd"
  have "set srtd = set (take k srtd) \<union> set (drop k srtd)"
    by (metis append_take_drop_id set_append)
  then have s: "set (take k srtd @ n # drop k srtd) = insert n (set srtd)"
    by auto
  have "distinct (take k srtd @ n # drop k srtd)" if "distinct srtd"
  proof -
    from that have "distinct (take k srtd @ drop k srtd)" by simp
    then have "distinct (take k srtd)" "distinct (drop k srtd)"
      "set (take k srtd) \<inter> set (drop k srtd) = {}"
      by (simp_all only: distinct_append)
    moreover from n have "n \<notin> set (take k srtd)" "n \<notin> set (drop k srtd)"
      by (auto dest: in_set_takeD in_set_dropD)
    ultimately show ?thesis by auto
  qed
  with n s show ?thesis by (simp add: grows_by_def)
qed

lemma before_part_grows:
  "before_part names i cs srtd = Inr (cs1, srtd1) \<Longrightarrow> grows_by (name (cs ! i)) srtd srtd1"
proof -
  assume "before_part names i cs srtd = Inr (cs1, srtd1)"
  from before_part_cases [OF this] consider "srtd1 = srtd"
    | k where "name (cs ! i) \<notin> set srtd" "k \<le> length srtd"
        "srtd1 = take k srtd @ name (cs ! i) # drop k srtd"
    by blast
  then show ?thesis
  proof cases
    case 1
    then show ?thesis by (simp add: grows_by_def)
  next
    case 2
    then show ?thesis by (simp add: grows_by_insert)
  qed
qed

lemma after_part_done_grows:
  "after_part names i cs srtd = After_done srtd2 \<Longrightarrow> grows_by (name (cs ! i)) srtd srtd2"
  by (drule after_part_done_cases) (auto simp: grows_by_def)

lemma append_unsorted_grows: "grows_by (name (cs ! i)) srtd (append_unsorted cs i srtd)"
  using append_unsorted_cases [of cs i srtd] by (auto simp: grows_by_def)

lemma append_unsorted_mem: "name (cs ! i) \<in> set (append_unsorted cs i srtd)"
  using append_unsorted_cases [of cs i srtd] by auto

lemma extends_refl: "extends names srtd srtd"
  by (simp add: extends_def)

lemma extends_trans: "extends names a b \<Longrightarrow> extends names b c \<Longrightarrow> extends names a c"
  by (auto simp: extends_def)

lemma grows_by_extends: "grows_by n srtd srtd' \<Longrightarrow> n \<in> set names \<Longrightarrow> extends names srtd srtd'"
  by (auto simp: grows_by_def extends_def)


lemma fixed_name_nth:
  "map fixed_fields cs' = map fixed_fields cs \<Longrightarrow> i < length cs \<Longrightarrow> name (cs' ! i) = name (cs ! i)"
  by (drule fixed_name) (metis length_map nth_map)

lemma fixed_length: "map fixed_fields cs' = map fixed_fields cs \<Longrightarrow> length cs' = length cs"
  by (metis length_map)

lemma sortCallback_extends:
  "sortCallback fuel names i cs srtd = Some (err, cs', srtd') \<Longrightarrow> names = map name cs
   \<Longrightarrow> i < length cs
   \<Longrightarrow> extends names srtd srtd' \<and> (err = None \<longrightarrow> name (cs ! i) \<in> set srtd')"
proof (induction fuel arbitrary: i cs srtd err cs' srtd')
  case 0
  then show ?case by (simp add: sortCallback.simps)
next
  case (Suc fuel)
  note names = \<open>names = map name cs\<close>
  from Suc.prems have mem: "name (cs ! i) \<in> set names" by simp
  show ?case
  proof (cases "before_part names i cs srtd")
    case (Inl e)
    with Suc.prems have "srtd' = srtd" "err = Some e" by (auto simp: sortCallback.simps)
    then show ?thesis by (simp add: extends_refl)
  next
    case (Inr st)
    obtain cs1 srtd1 where st: "st = (cs1, srtd1)" by (cases st)
    note b = Inr [unfolded st]
    note f1 = before_part_fixed [OF b]
    have n1: "name (cs1 ! i) = name (cs ! i)" using f1 Suc.prems(3) by (rule fixed_name_nth)
    have e1: "extends names srtd srtd1"
      using before_part_grows [OF b] mem by (rule grows_by_extends)
    show ?thesis
    proof (cases "after_part names i cs1 srtd1")
      case (After_error e)
      with Suc.prems b have "srtd' = srtd1" "err = Some e" by (auto simp: sortCallback.simps)
      with e1 show ?thesis by simp
    next
      case (After_done s2)
      have "extends names srtd1 s2"
        using after_part_done_grows [OF After_done] mem n1 by (auto intro: grows_by_extends)
      moreover have "extends names s2 (append_unsorted cs1 i s2)"
        using append_unsorted_grows [of cs1 i s2] mem n1 by (auto intro: grows_by_extends)
      ultimately have "extends names srtd (append_unsorted cs1 i s2)"
        using e1 by (metis extends_trans)
      moreover have "name (cs ! i) \<in> set (append_unsorted cs1 i s2)"
        using append_unsorted_mem [of cs1 i s2] n1 by simp
      moreover from Suc.prems b After_done have "srtd' = append_unsorted cs1 i s2"
        by (auto simp: sortCallback.simps)
      ultimately show ?thesis by simp
    next
      case (After_recurse idx cs2)
      note f2 = after_part_fixed [OF After_recurse]
      have f12: "map fixed_fields cs2 = map fixed_fields cs"
        using f1 f2 by simp
      have names2: "names = map name cs2"
        using names fixed_name [OF f12] by simp
      have len2: "length cs2 = length cs"
        using f12 by (rule fixed_length)
      have idx: "idx < length cs2"
        using after_part_recurse_index [OF After_recurse] names len2 by simp
      from Suc.prems b After_recurse
      obtain e3 cs3 srtd3 where r1: "sortCallback fuel names idx cs2 srtd1 = Some (e3, cs3, srtd3)"
        by (auto simp: sortCallback.simps split: option.splits)
      from Suc.IH [OF r1 names2 idx] have e3: "extends names srtd1 srtd3" by simp
      show ?thesis
      proof (cases e3)
        case (Some e)
        with Suc.prems b After_recurse r1 have "srtd' = srtd3" "err = Some e"
          by (auto simp: sortCallback.simps)
        with extends_trans [OF e1 e3] show ?thesis by simp
      next
        case None
        note f3 = sortCallback_fixed [OF r1]
        have f13: "map fixed_fields cs3 = map fixed_fields cs"
          using f12 f3 by simp
        have names3: "names = map name cs3"
          using names fixed_name [OF f13] by simp
        have len3: "length cs3 = length cs"
          using f13 by (rule fixed_length)
        have n3: "name (cs3 ! i) = name (cs ! i)"
          using f13 Suc.prems(3) by (rule fixed_name_nth)
        from Suc.prems b After_recurse r1 None
        obtain e4 cs4 srtd4 where r2: "sortCallback fuel names i cs3 srtd3 = Some (e4, cs4, srtd4)"
          by (auto simp: sortCallback.simps split: option.splits)
        from Suc.IH [OF r2 names3] Suc.prems(3) len3
        have e4: "extends names srtd3 srtd4" by simp
        have "map fixed_fields cs4 = map fixed_fields cs"
          using sortCallback_fixed [OF r2] f13 by simp
        then have n4: "name (cs4 ! i) = name (cs ! i)"
          using Suc.prems(3) by (rule fixed_name_nth)
        show ?thesis
        proof (cases e4)
          case (Some e)
          with Suc.prems b After_recurse r1 None r2 have "srtd' = srtd4" "err = Some e"
            by (auto simp: sortCallback.simps)
          with extends_trans [OF extends_trans [OF e1 e3] e4] show ?thesis by simp
        next
          case None4: None
          with Suc.prems b After_recurse r1 None r2
          have r: "srtd' = append_unsorted cs4 i srtd4" "err = None"
            by (auto simp: sortCallback.simps)
          have "extends names srtd4 (append_unsorted cs4 i srtd4)"
            using append_unsorted_grows [of cs4 i srtd4] mem n4 by (auto intro: grows_by_extends)
          with extends_trans [OF extends_trans [OF e1 e3] e4] have "extends names srtd srtd'"
            unfolding r by (rule extends_trans)
          moreover have "name (cs ! i) \<in> set srtd'"
            unfolding r using append_unsorted_mem [of cs4 i srtd4] n4 by simp
          ultimately show ?thesis by simp
        qed
      qed
    qed
  qed
qed

lemma sort_loop_extends:
  "sort_loop fuel names is cs srtd = Some (err, cs', srtd') \<Longrightarrow> names = map name cs
   \<Longrightarrow> \<forall>i \<in> set is. i < length cs
   \<Longrightarrow> extends names srtd srtd'
       \<and> (err = None \<longrightarrow> (\<forall>i \<in> set is. name (cs ! i) \<in> set srtd'))"
proof (induction "is" arbitrary: cs srtd)
  case Nil
  then show ?case by (simp add: extends_refl)
next
  case (Cons i "is")
  from Cons.prems obtain e1 cs1 srtd1 where
    r: "sortCallback fuel names i cs srtd = Some (e1, cs1, srtd1)"
    by (auto split: option.splits)
  from Cons.prems have i: "i < length cs" by simp
  from sortCallback_extends [OF r Cons.prems(2) i]
  have x: "extends names srtd srtd1" "e1 = None \<longrightarrow> name (cs ! i) \<in> set srtd1" by simp_all
  show ?case
  proof (cases e1)
    case (Some e)
    with Cons.prems r have "srtd' = srtd1" "err = Some e" by auto
    with x show ?thesis by simp
  next
    case None
    note f = sortCallback_fixed [OF r]
    have names1: "names = map name cs1" using Cons.prems(2) fixed_name [OF f] by simp
    have len1: "length cs1 = length cs" using f by (rule fixed_length)
    from None Cons.prems r have l: "sort_loop fuel names is cs1 srtd1 = Some (err, cs', srtd')"
      by simp
    have "\<forall>j \<in> set is. j < length cs1" using Cons.prems(3) len1 by simp
    from Cons.IH [OF l names1 this]
    have y: "extends names srtd1 srtd'"
      "err = None \<longrightarrow> (\<forall>j \<in> set is. name (cs1 ! j) \<in> set srtd')" by simp_all
    have nm: "name (cs1 ! j) = name (cs ! j)" if "j < length cs" for j
      using f that by (rule fixed_name_nth)
    from x None have "name (cs ! i) \<in> set srtd1" by simp
    with y(1) have hd: "name (cs ! i) \<in> set srtd'" by (auto simp: extends_def)
    have tl: "\<forall>j \<in> set is. name (cs ! j) \<in> set srtd'" if "err = None"
    proof
      fix j assume j: "j \<in> set is"
      with Cons.prems(3) have "j < length cs" by simp
      with y(2) that j nm show "name (cs ! j) \<in> set srtd'" by auto
    qed
    from extends_trans [OF x(1) y(1)] hd tl show ?thesis by simp
  qed
qed


subsection \<open>A compilation without an error compiles every name once\<close>

lemma project_fns_names:
  assumes "names = map name cs" "\<forall>c \<in> set cs. \<not> remove c"
  shows "set srtd \<subseteq> set names
   \<Longrightarrow> project_fns names cs srtd
       = Some (map (\<lambda>n. handler (cs ! the (getRIndex names n))) srtd)"
proof (induction srtd)
  case Nil
  show ?case by simp
next
  case (Cons n srtd)
  then have "n \<in> set names" by simp
  then obtain idx where g: "getRIndex names n = Some idx"
    by (cases "getRIndex names n") (simp_all add: getRIndex_None_iff)
  then have "idx < length cs" using assms(1) by (auto dest: getRIndex_Some_nth)
  with assms(2) have "\<not> remove (cs ! idx)" by simp
  with Cons g show ?case by simp
qed

lemma sort_loop_all_names:
  assumes "sort_loop fuel (map name cs) [0..<length cs] cs [] = Some (None, cs', srtd)"
  shows "distinct srtd \<and> set srtd = set (map name cs)"
proof -
  from sort_loop_extends [OF assms refl]
  have e: "extends (map name cs) [] srtd" and m: "\<forall>i \<in> set [0..<length cs]. name (cs ! i) \<in> set srtd"
    by simp_all
  have "set (map name cs) \<subseteq> set srtd"
  proof
    fix n assume "n \<in> set (map name cs)"
    then obtain i where "i < length cs" "n = name (cs ! i)"
      by (auto simp: in_set_conv_nth)
    with m show "n \<in> set srtd" by simp
  qed
  with e show ?thesis by (auto simp: extends_def)
qed

lemma sortCallbacks_permutation:
  assumes r: "sortCallbacks fuel cs = Some r" and ok: "sr_err r = None"
    and d: "distinct (map name cs)" and nr: "\<forall>c \<in> set cs. \<not> remove c"
  shows "mset (sr_fns r) = mset (map handler cs)"
proof -
  let ?cs = "SliceStable star_less cs"
  let ?names = "map name ?cs"
  from r ok obtain cs1 srtd where
    l: "sort_loop fuel ?names [0..<length ?cs] ?cs [] = Some (None, cs1, srtd)"
    and p: "project_fns ?names cs1 srtd = Some (sr_fns r)"
    and cs1: "sr_cs r = cs1"
    by (auto simp: sortCallbacks_unfold [OF refl] split: option.splits)
  note f = sort_loop_fixed [OF l]
  have names1: "?names = map name cs1" using fixed_name [OF f] by simp
  have msn: "mset ?names = mset (map name cs)"
    using mset_SliceStable [of star_less cs] by (metis mset_map)
  have dn: "distinct ?names"
    using d msn by (metis mset_eq_imp_distinct_iff)
  have sf: "set (map fixed_fields cs1) = set (map fixed_fields cs)"
    using f set_SliceStable [of star_less cs] by simp
  have nr1: "\<forall>c \<in> set cs1. \<not> remove c"
  proof
    fix c assume "c \<in> set cs1"
    then have "fixed_fields c \<in> set (map fixed_fields cs1)" by simp
    with sf obtain c' where "c' \<in> set cs" "fixed_fields c' = fixed_fields c" by auto
    with nr show "\<not> remove c" by (auto simp: fixed_fields_def)
  qed
  from sort_loop_all_names [OF l] have ds: "distinct srtd" and ss: "set srtd = set ?names"
    by simp_all
  let ?g = "\<lambda>n. handler (cs1 ! the (getRIndex ?names n))"
  from project_fns_names [OF names1 nr1, of srtd] ss p
  have fs: "sr_fns r = map ?g srtd" by simp
  have "mset srtd = mset ?names"
    using ds dn ss by (rule set_eq_iff_mset_eq_distinct [THEN iffD1])
  then have "mset (map ?g srtd) = mset (map ?g ?names)" by (metis mset_map)
  also have "map ?g ?names = map handler cs1"
  proof (rule nth_equalityI)
    show "length (map ?g ?names) = length (map handler cs1)"
      using names1 by (metis length_map)
  next
    fix i assume "i < length (map ?g ?names)"
    then have i: "i < length ?names" by simp
    then have i1: "i < length cs1" using names1 by (metis length_map)
    from getRIndex_distinct [OF dn i] have "getRIndex ?names (?names ! i) = Some i" .
    moreover have "?names ! i = name (cs1 ! i)" using names1 i1 by simp
    ultimately show "map ?g ?names ! i = map handler cs1 ! i"
      using i i1 by simp
  qed
  also have "mset (map handler cs1) = mset (map handler cs)"
  proof -
    have "map handler cs1 = map (snd \<circ> snd \<circ> snd \<circ> snd) (map fixed_fields cs1)"
      by (simp add: fixed_fields_def)
    also have "\<dots> = map (snd \<circ> snd \<circ> snd \<circ> snd) (map fixed_fields ?cs)"
      using f by simp
    also have "\<dots> = map handler ?cs" by (simp add: fixed_fields_def)
    finally show ?thesis using mset_SliceStable [of star_less cs] by (metis mset_map)
  qed
  finally show ?thesis using fs by simp
qed


subsection \<open>Constraints that a numbering of the names satisfies\<close>

lemma ordered_by_update:
  "\<forall>c \<in> set cs. ordered_by pos c \<Longrightarrow> ordered_by pos c' \<Longrightarrow> \<forall>c \<in> set (cs[idx := c']). ordered_by pos c"
  by (metis insert_iff set_update_subset_insert subsetD)

lemma before_part_ordered:
  assumes "before_part names i cs srtd = Inr (cs1, srtd1)" "names = map name cs" "i < length cs"
    and o: "\<forall>c \<in> set cs. ordered_by pos c"
  shows "\<forall>c \<in> set cs1. ordered_by pos c"
    and "\<forall>k < length cs. after (cs1 ! k) = after (cs ! k) \<or> after (cs1 ! k) = name (cs ! i)"
    and "before (cs ! i) \<noteq> name (cs ! i) \<or> before (cs ! i) = [] \<Longrightarrow> after (cs1 ! i) = after (cs ! i)"
proof -
  from before_part_cases [OF assms(1)] consider "cs1 = cs"
    | idx where "before (cs ! i) \<noteq> []" "getRIndex names (before (cs ! i)) = Some idx"
        "cs1 = cs[idx := (cs ! idx)\<lparr>after := name (cs ! i)\<rparr>]"
    by blast
  then have "(\<forall>c \<in> set cs1. ordered_by pos c)
      \<and> (\<forall>k < length cs. after (cs1 ! k) = after (cs ! k) \<or> after (cs1 ! k) = name (cs ! i))
      \<and> (before (cs ! i) \<noteq> name (cs ! i) \<or> before (cs ! i) = [] \<longrightarrow> after (cs1 ! i) = after (cs ! i))"
  proof cases
    case 1
    with o show ?thesis by simp
  next
    case 2
    from 2(2) assms(2) have idx: "idx < length cs" "name (cs ! idx) = before (cs ! i)"
      by (auto dest: getRIndex_Some_nth)
    from o assms(3) have oi: "ordered_by pos (cs ! i)" by simp
    from o idx(1) have "ordered_by pos (cs ! idx)" by simp
    with oi 2(1) idx(2) have "ordered_by pos ((cs ! idx)\<lparr>after := name (cs ! i)\<rparr>)"
      by (simp add: ordered_by_def)
    with o have a: "\<forall>c \<in> set cs1. ordered_by pos c"
      unfolding 2(3) by (rule ordered_by_update)
    have b: "\<forall>k < length cs. after (cs1 ! k) = after (cs ! k) \<or> after (cs1 ! k) = name (cs ! i)"
      unfolding 2(3) using idx(1) by (auto simp: nth_list_update)
    have c: "after (cs1 ! i) = after (cs ! i)" if "before (cs ! i) \<noteq> name (cs ! i)"
    proof -
      from that idx(2) have "idx \<noteq> i" by auto
      then show ?thesis unfolding 2(3) by simp
    qed
    from a b c 2(1) show ?thesis by blast
  qed
  then show "\<forall>c \<in> set cs1. ordered_by pos c"
    and "\<forall>k < length cs. after (cs1 ! k) = after (cs ! k) \<or> after (cs1 ! k) = name (cs ! i)"
    and "before (cs ! i) \<noteq> name (cs ! i) \<or> before (cs ! i) = [] \<Longrightarrow> after (cs1 ! i) = after (cs ! i)"
    by blast+
qed

lemma after_part_ordered:
  assumes "after_part names i cs srtd = After_recurse idx cs2" "names = map name cs" "i < length cs"
    and o: "\<forall>c \<in> set cs. ordered_by pos c"
  shows "\<forall>c \<in> set cs2. ordered_by pos c"
    and "\<forall>k. after (cs2 ! k) = after (cs ! k)"
    and "idx < length cs" and "name (cs ! idx) = after (cs ! i)"
    and "pos (name (cs ! idx)) < pos (name (cs ! i))"
proof -
  note c = after_part_recurse_cases [OF assms(1)]
  from c assms(2) show idx: "idx < length cs" and n: "name (cs ! idx) = after (cs ! i)"
    by (auto dest: getRIndex_Some_nth)
  from o assms(3) have oi: "ordered_by pos (cs ! i)" by simp
  with c n show "pos (name (cs ! idx)) < pos (name (cs ! i))"
    by (simp add: ordered_by_def)
  from o idx have oidx: "ordered_by pos (cs ! idx)" by simp
  from c consider "cs2 = cs"
    | "before (cs ! idx) = []" "cs2 = cs[idx := (cs ! idx)\<lparr>before := name (cs ! i)\<rparr>]"
    by blast
  then have "(\<forall>c \<in> set cs2. ordered_by pos c) \<and> (\<forall>k. after (cs2 ! k) = after (cs ! k))"
  proof cases
    case 1
    with o show ?thesis by simp
  next
    case 2
    from oi oidx c n have "ordered_by pos ((cs ! idx)\<lparr>before := name (cs ! i)\<rparr>)"
      by (simp add: ordered_by_def)
    with o have "\<forall>c \<in> set cs2. ordered_by pos c"
      unfolding 2(2) by (rule ordered_by_update)
    moreover have "\<forall>k. after (cs2 ! k) = after (cs ! k)"
      unfolding 2(2) using idx by (auto simp: nth_list_update)
    ultimately show ?thesis by blast
  qed
  then show "\<forall>c \<in> set cs2. ordered_by pos c" and "\<forall>k. after (cs2 ! k) = after (cs ! k)"
    by blast+
qed


lemma extends_subset: "extends names srtd srtd' \<Longrightarrow> set srtd \<subseteq> set srtd'"
  by (simp add: extends_def)

lemma grows_by_subset: "grows_by n srtd srtd' \<Longrightarrow> set srtd \<subseteq> set srtd'"
  by (auto simp: grows_by_def)

lemma sortCallback_ordered:
  "sortCallback fuel names i cs srtd = Some (err, cs', srtd') \<Longrightarrow> names = map name cs
   \<Longrightarrow> i < length cs \<Longrightarrow> \<forall>c \<in> set cs. ordered_by pos c
   \<Longrightarrow> (\<forall>c \<in> set cs'. ordered_by pos c) \<and> (err = None \<longrightarrow> after_kept cs cs' srtd')"
proof (induction fuel arbitrary: i cs srtd err cs' srtd')
  case 0
  then show ?case by (simp add: sortCallback.simps)
next
  case (Suc fuel)
  note names = \<open>names = map name cs\<close> and i = \<open>i < length cs\<close>
    and o = \<open>\<forall>c \<in> set cs. ordered_by pos c\<close>
  show ?case
  proof (cases "before_part names i cs srtd")
    case (Inl e)
    with Suc.prems(1) have "cs' = cs" "err = Some e" by (auto simp: sortCallback.simps)
    with o show ?thesis by simp
  next
    case (Inr st)
    obtain cs1 srtd1 where st: "st = (cs1, srtd1)" by (cases st)
    note b = Inr [unfolded st]
    note f1 = before_part_fixed [OF b]
    note o1 = before_part_ordered(1) [OF b names i o]
    note a1 = before_part_ordered(2) [OF b names i o]
    have names1: "names = map name cs1" using names fixed_name [OF f1] by simp
    have len1: "length cs1 = length cs" using f1 by (rule fixed_length)
    have i1: "i < length cs1" using i len1 by simp
    have n1: "name (cs1 ! i) = name (cs ! i)" using f1 i by (rule fixed_name_nth)
    show ?thesis
    proof (cases "after_part names i cs1 srtd1")
      case (After_error e)
      with Suc.prems(1) b have "cs' = cs1" "err = Some e" by (auto simp: sortCallback.simps)
      with o1 show ?thesis by simp
    next
      case (After_done s2)
      with Suc.prems(1) b have r: "cs' = cs1" "srtd' = append_unsorted cs1 i s2"
        by (auto simp: sortCallback.simps)
      have "name (cs ! i) \<in> set srtd'"
        unfolding r using append_unsorted_mem [of cs1 i s2] n1 by simp
      with a1 have "after_kept cs cs' srtd'"
        unfolding r(1) after_kept_def by metis
      with o1 r show ?thesis by simp
    next
      case (After_recurse idx cs2)
      note f2 = after_part_fixed [OF After_recurse]
      note o2 = after_part_ordered(1) [OF After_recurse names1 i1 o1]
      note a2 = after_part_ordered(2) [OF After_recurse names1 i1 o1]
      have f12: "map fixed_fields cs2 = map fixed_fields cs" using f1 f2 by simp
      have names2: "names = map name cs2" using names fixed_name [OF f12] by simp
      have len2: "length cs2 = length cs" using f12 by (rule fixed_length)
      have idx: "idx < length cs2"
        using after_part_ordered(3) [OF After_recurse names1 i1 o1] len1 len2 by simp
      from Suc.prems(1) b After_recurse
      obtain e3 cs3 srtd3 where r1: "sortCallback fuel names idx cs2 srtd1 = Some (e3, cs3, srtd3)"
        by (auto simp: sortCallback.simps split: option.splits)
      from Suc.IH [OF r1 names2 idx o2]
      have o3: "\<forall>c \<in> set cs3. ordered_by pos c" and k3: "e3 = None \<longrightarrow> after_kept cs2 cs3 srtd3"
        by simp_all
      show ?thesis
      proof (cases e3)
        case (Some e)
        with Suc.prems(1) b After_recurse r1 have "cs' = cs3" "err = Some e"
          by (auto simp: sortCallback.simps)
        with o3 show ?thesis by simp
      next
        case None
        note f3 = sortCallback_fixed [OF r1]
        have f13: "map fixed_fields cs3 = map fixed_fields cs" using f12 f3 by simp
        have names3: "names = map name cs3" using names fixed_name [OF f13] by simp
        have len3: "length cs3 = length cs" using f13 by (rule fixed_length)
        have i3: "i < length cs3" using i len3 by simp
        from Suc.prems(1) b After_recurse r1 None
        obtain e4 cs4 srtd4 where r2: "sortCallback fuel names i cs3 srtd3 = Some (e4, cs4, srtd4)"
          by (auto simp: sortCallback.simps split: option.splits)
        from Suc.IH [OF r2 names3 i3 o3]
        have o4: "\<forall>c \<in> set cs4. ordered_by pos c" and k4: "e4 = None \<longrightarrow> after_kept cs3 cs4 srtd4"
          by simp_all
        show ?thesis
        proof (cases e4)
          case (Some e)
          with Suc.prems(1) b After_recurse r1 None r2 have "cs' = cs4" "err = Some e"
            by (auto simp: sortCallback.simps)
          with o4 show ?thesis by simp
        next
          case None4: None
          with Suc.prems(1) b After_recurse r1 None r2
          have r: "cs' = cs4" "srtd' = append_unsorted cs4 i srtd4"
            by (auto simp: sortCallback.simps)
          have f14: "map fixed_fields cs4 = map fixed_fields cs"
            using sortCallback_fixed [OF r2] f13 by simp
          have n4: "name (cs4 ! i) = name (cs ! i)" using f14 i by (rule fixed_name_nth)
          have m: "name (cs ! i) \<in> set srtd'"
            unfolding r using append_unsorted_mem [of cs4 i srtd4] n4 by simp
          have s34: "set srtd3 \<subseteq> set srtd4"
            using sortCallback_extends [OF r2 names3 i3, THEN conjunct1] by (rule extends_subset)
          have s4: "set srtd4 \<subseteq> set srtd'"
            unfolding r using append_unsorted_grows [of cs4 i srtd4] by (rule grows_by_subset)
          have "after (cs4 ! k) = after (cs ! k) \<or> after (cs4 ! k) \<in> set srtd'"
            if k: "k < length cs" for k
          proof -
            from k4 None4 k len3 have "after (cs4 ! k) = after (cs3 ! k) \<or> after (cs4 ! k) \<in> set srtd4"
              by (simp add: after_kept_def)
            moreover from k3 None k len2
            have "after (cs3 ! k) = after (cs2 ! k) \<or> after (cs3 ! k) \<in> set srtd3"
              by (simp add: after_kept_def)
            moreover from a2 have "after (cs2 ! k) = after (cs1 ! k)" by simp
            moreover from a1 k have "after (cs1 ! k) = after (cs ! k) \<or> after (cs1 ! k) = name (cs ! i)"
              by simp
            ultimately show ?thesis using s34 s4 m by (metis subsetD)
          qed
          then have "after_kept cs cs' srtd'" by (simp add: after_kept_def r(1))
          with o4 r show ?thesis by simp
        qed
      qed
    qed
  qed
qed

subsection \<open>The depth of the recursion\<close>

lemma sortCallback_second_call:
  assumes "names = map name cs" "i < length cs"
    and a: "after (cs ! i) = [] \<or> after (cs ! i) \<in> set srtd"
    and b: "before (cs ! i) \<noteq> name (cs ! i) \<or> before (cs ! i) = []"
  shows "sortCallback (Suc fuel) names i cs srtd \<noteq> None"
proof (cases "before_part names i cs srtd")
  case (Inl e)
  then show ?thesis by (simp add: sortCallback.simps)
next
  case (Inr st)
  obtain cs1 srtd1 where st: "st = (cs1, srtd1)" by (cases st)
  note bp = Inr [unfolded st]
  have s: "set srtd \<subseteq> set srtd1"
    using before_part_grows [OF bp] by (rule grows_by_subset)
  have "after (cs1 ! i) = after (cs ! i)"
  proof -
    from before_part_cases [OF bp] consider "cs1 = cs"
      | idx where "before (cs ! i) \<noteq> []" "getRIndex names (before (cs ! i)) = Some idx"
          "cs1 = cs[idx := (cs ! idx)\<lparr>after := name (cs ! i)\<rparr>]"
      by blast
    then show ?thesis
    proof cases
      case 1
      then show ?thesis by simp
    next
      case 2
      from 2(2) assms(1) have "name (cs ! idx) = before (cs ! i)"
        by (auto dest: getRIndex_Some_nth)
      with b 2(1) have "idx \<noteq> i" by auto
      then show ?thesis unfolding 2(3) by simp
    qed
  qed
  with a s have a1: "after (cs1 ! i) = [] \<or> after (cs1 ! i) \<in> set srtd1" by auto
  show ?thesis
  proof (cases "after_part names i cs1 srtd1")
    case (After_error e)
    with bp show ?thesis by (simp add: sortCallback.simps)
  next
    case (After_done s2)
    with bp show ?thesis by (simp add: sortCallback.simps)
  next
    case (After_recurse idx cs2)
    from after_part_recurse_cases [OF this] a1 show ?thesis by simp
  qed
qed

lemma sortCallback_terminates:
  "\<forall>c \<in> set cs. ordered_by pos c \<Longrightarrow> names = map name cs \<Longrightarrow> i < length cs
   \<Longrightarrow> pos (name (cs ! i)) < f \<Longrightarrow> sortCallback (Suc f) names i cs srtd \<noteq> None"
proof (induction f arbitrary: i cs srtd)
  case 0
  then show ?case by simp
next
  case (Suc f)
  note o = Suc.prems(1) and names = Suc.prems(2) and i = Suc.prems(3)
  show ?case
  proof (cases "before_part names i cs srtd")
    case (Inl e)
    then show ?thesis by (simp add: sortCallback.simps)
  next
    case (Inr st)
    obtain cs1 srtd1 where st: "st = (cs1, srtd1)" by (cases st)
    note b = Inr [unfolded st]
    note f1 = before_part_fixed [OF b]
    note o1 = before_part_ordered(1) [OF b names i o]
    have names1: "names = map name cs1" using names fixed_name [OF f1] by simp
    have len1: "length cs1 = length cs" using f1 by (rule fixed_length)
    have i1: "i < length cs1" using i len1 by simp
    have n1: "name (cs1 ! i) = name (cs ! i)" using f1 i by (rule fixed_name_nth)
    show ?thesis
    proof (cases "after_part names i cs1 srtd1")
      case (After_error e)
      with b show ?thesis by (simp add: sortCallback.simps)
    next
      case (After_done s2)
      with b show ?thesis by (simp add: sortCallback.simps)
    next
      case (After_recurse idx cs2)
      note f2 = after_part_fixed [OF After_recurse]
      note o2 = after_part_ordered(1) [OF After_recurse names1 i1 o1]
      note a2 = after_part_ordered(2) [OF After_recurse names1 i1 o1]
      note idx1 = after_part_ordered(3) [OF After_recurse names1 i1 o1]
      note nidx = after_part_ordered(4) [OF After_recurse names1 i1 o1]
      note lt = after_part_ordered(5) [OF After_recurse names1 i1 o1]
      have names2: "names = map name cs2" using names1 fixed_name [OF f2] by simp
      have len2: "length cs2 = length cs1" using f2 by (rule fixed_length)
      have idx: "idx < length cs2" using idx1 len2 by simp
      have n2: "name (cs2 ! idx) = name (cs1 ! idx)" using f2 idx1 by (rule fixed_name_nth)
      from lt n1 Suc.prems(4) n2 have "pos (name (cs2 ! idx)) < f" by simp
      from Suc.IH [OF o2 names2 idx this, of srtd1]
      obtain e3 cs3 srtd3 where r1: "sortCallback (Suc f) names idx cs2 srtd1 = Some (e3, cs3, srtd3)"
        by (cases "sortCallback (Suc f) names idx cs2 srtd1") auto
      show ?thesis
      proof (cases e3)
        case (Some e)
        with b After_recurse r1 show ?thesis by (simp add: sortCallback.simps)
      next
        case None
        note f3 = sortCallback_fixed [OF r1]
        have names3: "names = map name cs3" using names2 fixed_name [OF f3] by simp
        have len3: "length cs3 = length cs2" using f3 by (rule fixed_length)
        have i3: "i < length cs3" using i1 len2 len3 by simp
        from sortCallback_ordered [OF r1 names2 idx o2] None
        have o3: "\<forall>c \<in> set cs3. ordered_by pos c" and k3: "after_kept cs2 cs3 srtd3"
          by simp_all
        from sortCallback_extends [OF r1 names2 idx] None
        have m3: "name (cs2 ! idx) \<in> set srtd3" by simp
        from k3 i1 len2 have "after (cs3 ! i) = after (cs2 ! i) \<or> after (cs3 ! i) \<in> set srtd3"
          by (simp add: after_kept_def)
        moreover have "after (cs2 ! i) = name (cs2 ! idx)"
          using a2 nidx n2 by simp
        ultimately have a3: "after (cs3 ! i) = [] \<or> after (cs3 ! i) \<in> set srtd3"
          using m3 by auto
        from o3 i3 have "ordered_by pos (cs3 ! i)" by simp
        then have b3: "before (cs3 ! i) \<noteq> name (cs3 ! i) \<or> before (cs3 ! i) = []"
          by (auto simp: ordered_by_def)
        from sortCallback_second_call [OF names3 i3 a3 b3, of f]
        obtain e4 cs4 srtd4 where r2: "sortCallback (Suc f) names i cs3 srtd3 = Some (e4, cs4, srtd4)"
          by (cases "sortCallback (Suc f) names i cs3 srtd3") auto
        with b After_recurse r1 None show ?thesis
          by (cases e4) (simp_all add: sortCallback.simps)
      qed
    qed
  qed
qed


lemma sort_loop_terminates:
  "\<forall>c \<in> set cs. ordered_by pos c \<Longrightarrow> names = map name cs \<Longrightarrow> \<forall>i \<in> set is. i < length cs
   \<Longrightarrow> \<forall>n \<in> set names. pos n < f \<Longrightarrow> sort_loop (Suc f) names is cs srtd \<noteq> None"
proof (induction "is" arbitrary: cs srtd)
  case Nil
  show ?case by simp
next
  case (Cons i "is")
  from Cons.prems have i: "i < length cs" by simp
  with Cons.prems(2,4) have "pos (name (cs ! i)) < f" by simp
  from sortCallback_terminates [OF Cons.prems(1,2) i this, of srtd]
  obtain e1 cs1 srtd1 where r: "sortCallback (Suc f) names i cs srtd = Some (e1, cs1, srtd1)"
    by (cases "sortCallback (Suc f) names i cs srtd") auto
  show ?case
  proof (cases e1)
    case (Some e)
    with r show ?thesis by simp
  next
    case None
    note fx = sortCallback_fixed [OF r]
    have names1: "names = map name cs1" using Cons.prems(2) fixed_name [OF fx] by simp
    have len1: "length cs1 = length cs" using fx by (rule fixed_length)
    have o1: "\<forall>c \<in> set cs1. ordered_by pos c"
      using sortCallback_ordered [OF r Cons.prems(2) i Cons.prems(1)] by simp
    have "\<forall>j \<in> set is. j < length cs1" using Cons.prems(3) len1 by simp
    from Cons.IH [OF o1 names1 this Cons.prems(4), of srtd1] r None show ?thesis by simp
  qed
qed

lemma project_fns_total:
  "set srtd \<subseteq> set names \<Longrightarrow> project_fns names cs srtd \<noteq> None"
proof (induction srtd)
  case Nil
  show ?case by simp
next
  case (Cons n srtd)
  then have "getRIndex names n \<noteq> None" by (simp add: getRIndex_None_iff)
  with Cons show ?case by auto
qed

lemma sortCallbacks_terminates:
  assumes "\<forall>c \<in> set cs. ordered_by pos c \<and> pos (name c) < f"
  shows "sortCallbacks (Suc f) cs \<noteq> None"
proof -
  let ?cs = "SliceStable star_less cs"
  let ?names = "map name ?cs"
  have o: "\<forall>c \<in> set ?cs. ordered_by pos c" and b: "\<forall>n \<in> set ?names. pos n < f"
    using assms by (auto simp: set_SliceStable)
  from sort_loop_terminates [OF o refl _ b, of "[0..<length ?cs]" "[]"]
  obtain e cs1 srtd where l: "sort_loop (Suc f) ?names [0..<length ?cs] ?cs [] = Some (e, cs1, srtd)"
    by (cases "sort_loop (Suc f) ?names [0..<length ?cs] ?cs []") auto
  show ?thesis
  proof (cases e)
    case (Some err)
    with l show ?thesis by (simp add: sortCallbacks_unfold [OF refl])
  next
    case None
    from sort_loop_extends [OF l refl] have "set srtd \<subseteq> set ?names"
      by (simp add: extends_def)
    from project_fns_total [OF this, of cs1] l None show ?thesis
      by (auto simp: sortCallbacks_unfold [OF refl])
  qed
qed

lemma candidates_not_removed: "\<forall>c \<in> set (candidates p). \<not> remove c"
  by (auto simp: candidates_def)

text \<open>A callback that is before \<open>A\<close> and after \<open>B\<close>, registered after \<open>A\<close> and \<open>B\<close>.\<close>

lemma register_plain_second:
  assumes "n \<noteq> m"
  shows "callback_Register (Suc fuel)
       \<lparr>db = d, Clauses = [], fns = [h1],
        callbacks = [\<lparr>name = n, before = [], after = [], remove = False, replace = False,
                      match = None, handler = h1\<rparr>],
        logged = []\<rparr> new_callback m h2
      = Some (\<lparr>db = d, Clauses = [], fns = [h1, h2],
               callbacks = [\<lparr>name = n, before = [], after = [], remove = False, replace = False,
                             match = None, handler = h1\<rparr>,
                            \<lparr>name = m, before = [], after = [], remove = False, replace = False,
                             match = None, handler = h2\<rparr>],
               logged = []\<rparr>, None)"
  using assms
  by (subst Register_unconstrained)
    (simp_all add: unconstrained_def plain_step_def new_callback_def)

lemma satisfiable_conflict_third:
  "callback_Register (Suc fuel)
       \<lparr>db = d, Clauses = [], fns = [ha, hb],
        callbacks = [\<lparr>name = ''A'', before = [], after = [], remove = False, replace = False,
                      match = None, handler = ha\<rparr>,
                     \<lparr>name = ''B'', before = [], after = [], remove = False, replace = False,
                      match = None, handler = hb\<rparr>],
        logged = []\<rparr> (callback_After (Before ''A'') ''B'') ''C'' hc
      = Some (\<lparr>db = d, Clauses = [], fns = [],
               callbacks = [\<lparr>name = ''A'', before = [], after = [], remove = False, replace = False,
                             match = None, handler = ha\<rparr>,
                            \<lparr>name = ''B'', before = [], after = [], remove = False, replace = False,
                             match = None, handler = hb\<rparr>,
                            \<lparr>name = ''C'', before = ''A'', after = ''B'', remove = False,
                             replace = False, match = None, handler = hc\<rparr>],
               logged = [Error_compile (conflict_msg ''C'' ''B'')]\<rparr>,
              Some (conflict_msg ''C'' ''B''))"
proof -
  let ?A = "\<lparr>name = ''A'', before = [], after = [], remove = False, replace = False,
             match = None, handler = ha\<rparr> :: ('a, 'b) callback"
  let ?B = "\<lparr>name = ''B'', before = [], after = [], remove = False, replace = False,
             match = None, handler = hb\<rparr> :: ('a, 'b) callback"
  let ?C = "\<lparr>name = ''C'', before = ''A'', after = ''B'', remove = False, replace = False,
             match = None, handler = hc\<rparr> :: ('a, 'b) callback"
  let ?names = "[''A'', ''B'', ''C'']"
  have s3: "SliceStable star_less [?A, ?B, ?C] = [?A, ?B, ?C]"
    by (rule SliceStable_id) (simp add: no_less_def star_less_def)
  have k1: "sortCallback (Suc fuel) ?names 0 [?A, ?B, ?C] [] = Some (None, [?A, ?B, ?C], [''A''])"
    by (simp add: step_defs)
  have k2: "sortCallback (Suc fuel) ?names (Suc 0) [?A, ?B, ?C] [''A'']
      = Some (None, [?A, ?B, ?C], [''A'', ''B''])"
    by (simp add: step_defs)
  have k3: "sortCallback (Suc fuel) ?names (Suc (Suc 0)) [?A, ?B, ?C] [''A'', ''B'']
      = Some (Some (conflict_msg ''C'' ''B''), [?A, ?B, ?C], [''C'', ''A'', ''B''])"
    by (simp add: step_defs)
  have w: "snd (collect_names [?A, ?B, ?C]) = []"
    by (simp add: collect_names_def names_step_def Let_def upt_3)
  have s: "sortCallbacks (Suc fuel) [?A, ?B, ?C]
      = Some \<lparr>sr_cs = [?A, ?B, ?C], sr_warnings = [], sr_fns = [],
               sr_err = Some (conflict_msg ''C'' ''B'')\<rparr>"
    by (simp add: sortCallbacks_unfold [OF s3] upt_3 k1 k2 k3 w)
  show ?thesis
    by (simp add: reg_defs callback_After_def s)
qed

section \<open>The claims\<close>

subsection \<open>Execute and the SQL buffer\<close>

text \<open>
  C9. When \<open>Execute\<close> returns, the dry-run flag is the one the handlers left. If it is false,
  the SQL text and the parameter list of the statement are empty; if it is true, both are
  what they were when the last handler returned.
\<close>

theorem Execute_clears_sql_unless_dry_run:
  assumes "Execute fuel env p d0 = Some d'"
  shows "\<exists>d6 r. Execute_handlers fuel env p d0 = Some (d6, r) \<and> DryRun d' = DryRun d6 \<and>
           (if DryRun d6 then SQL d' = SQL d6 \<and> Vars d' = Vars d6
            else SQL d' = [] \<and> Vars d' = [])"
proof -
  from assms obtain d6 r where h: "Execute_handlers fuel env p d0 = Some (d6, r)"
    and d': "d' = (if r then (reset_sql (trace_sql d6))\<lparr>BuildClauses := []\<rparr>
                   else reset_sql (trace_sql d6))"
    by (auto simp: Execute_def Let_def split: option.splits)
  have "DryRun d' = DryRun d6 \<and>
        (if DryRun d6 then SQL d' = SQL d6 \<and> Vars d' = Vars d6 else SQL d' = [] \<and> Vars d' = [])"
    unfolding d' by (simp add: reset_sql_def trace_sql_def)
  with h show ?thesis by blast
qed

theorem Execute_clears_sql_unless_dry_run_witness:
  "Execute 1 example_env example_stage (example_db False)
     = Some ((example_db False)\<lparr>scopes := [], Model := Some 7, ReflectValue := Some 7,
               traced := [(''SELECT ?'', [1])]\<rparr>)
   \<and> (\<exists>d6 r. Execute_handlers 1 example_env example_stage (example_db False) = Some (d6, r)
        \<and> \<not> DryRun d6
        \<and> SQL ((example_db False)\<lparr>scopes := [], Model := Some 7, ReflectValue := Some 7,
               traced := [(''SELECT ?'', [1])]\<rparr>) = [])"
proof -
  have e: "Execute 1 example_env example_stage (example_db False)
     = Some ((example_db False)\<lparr>scopes := [], Model := Some 7, ReflectValue := Some 7,
               traced := [(''SELECT ?'', [1])]\<rparr>)"
    by (simp add: Execute_def Execute_handlers_def example_env_def example_stage_def
        example_db_def example_handler_def new_processor_def adopt_clauses_def
        modify_statement_def assign_model_def parse_model_def assign_reflect_def
        trace_sql_def reset_sql_def AddError_def Let_def)
  from Execute_clears_sql_unless_dry_run [OF e] show ?thesis
    using e by (auto simp: example_db_def split: if_splits)
qed

subsection \<open>Contradictory constraints\<close>




subsection \<open>Duplicate names\<close>

text \<open>
  C1, as the code has it. Registered twice through plain \<open>Register\<close> on a fresh stage, a name
  compiles to the second action alone; the duplicate is logged, no error is returned, and
  \<open>Get\<close> returns the second action.
\<close>

theorem duplicate_name_compiles_last_action:
  "\<exists>p. register_all (Suc fuel) (new_processor d) [Reg new_callback n h1, Reg new_callback n h2]
         = Some (p, [None, None])
       \<and> fns p = [h2] \<and> logged p = [Warn_duplicated n] \<and> Get p n = h2"
  by (simp add: register_plain_first register_duplicate_second Get_def)

text \<open>The claim as it stands fails: the compiled list of \<open>Y\<close>, \<open>Y\<close> holds one action, not two.\<close>

theorem duplicate_name_runs_both_counterexample:
  "compiled_after (Suc 0) (new_processor ())
      [Reg new_callback ''Y'' (Some (1::nat)), Reg new_callback ''Y'' (Some 2)] = Some [Some 2]
   \<and> compiled_after (Suc 0) (new_processor ())
      [Reg new_callback ''Y'' (Some (1::nat)), Reg new_callback ''Y'' (Some 2)]
      \<noteq> Some [Some 1, Some 2]"
  by (simp add: compiled_after_def register_plain_first register_duplicate_second)


subsection \<open>Removal\<close>

text \<open>
  C3, as the code has it. A removal deletes from the registry every callback of that name
  that is there, the removal itself included, and nothing compiled belongs to that name.
  The name is not suppressed afterwards: registered, removed and registered again on a
  fresh stage, it compiles to the action registered last.
\<close>

theorem remove_deletes_present_steps_only:
  "(callback_Remove fuel p c n = Some (p', err) \<longrightarrow>
      (\<forall>x \<in> set (callbacks p'). name x \<noteq> n) \<and> set (fns p') \<subseteq> handler ` set (callbacks p'))
   \<and> (\<exists>q. register_all (Suc fuel') (new_processor d)
            [Reg new_callback m h1, Rem new_callback m, Reg new_callback m h2]
          = Some (q, [None, None, None])
        \<and> fns q = [h2] \<and> Get q m = h2)"
proof -
  have "(\<forall>x \<in> set (callbacks p'). name x \<noteq> n) \<and> set (fns p') \<subseteq> handler ` set (callbacks p')"
    if r: "callback_Remove fuel p c n = Some (p', err)"
  proof -
    let ?p = "p\<lparr>logged := logged p @ [Warn_removing n],
                callbacks := callbacks p @ [c\<lparr>name := n, remove := True\<rparr>]\<rparr>"
    from r have c: "compile fuel ?p = Some (p', err)" by (simp add: callback_Remove_def)
    have "n \<notin> set (map name (candidates ?p))"
      by (auto simp: candidates_def)
    with compile_names [OF c] have "n \<notin> set (map name (callbacks p'))" by simp
    with compile_registry(2) [OF c] show ?thesis by auto
  qed
  moreover have "\<exists>q. register_all (Suc fuel') (new_processor d)
            [Reg new_callback m h1, Rem new_callback m, Reg new_callback m h2]
          = Some (q, [None, None, None])
        \<and> fns q = [h2] \<and> Get q m = h2"
    by (simp add: register_plain_first remove_only_step register_after_remove Get_def)
  ultimately show ?thesis by blast
qed

theorem remove_deletes_present_steps_only_witness:
  "callback_Remove (Suc 0)
       \<lparr>db = (), Clauses = [], fns = [Some (1::nat)],
        callbacks = [\<lparr>name = ''X'', before = [], after = [], remove = False, replace = False,
                      match = None, handler = Some 1\<rparr>],
        logged = []\<rparr> new_callback ''X''
     = Some (\<lparr>db = (), Clauses = [], fns = [], callbacks = [], logged = [Warn_removing ''X'']\<rparr>, None)
   \<and> set (fns \<lparr>db = (), Clauses = [], fns = ([] :: nat option list), callbacks = [],
                logged = [Warn_removing ''X'']\<rparr>) \<subseteq> handler ` set []"
proof -
  have r: "callback_Remove (Suc 0)
       \<lparr>db = (), Clauses = [], fns = [Some (1::nat)],
        callbacks = [\<lparr>name = ''X'', before = [], after = [], remove = False, replace = False,
                      match = None, handler = Some 1\<rparr>],
        logged = []\<rparr> new_callback ''X''
     = Some (\<lparr>db = (), Clauses = [], fns = [], callbacks = [], logged = [Warn_removing ''X'']\<rparr>, None)"
    by (rule remove_only_step)
  from remove_deletes_present_steps_only [THEN conjunct1, rule_format, OF r] r
  show ?thesis by simp
qed

text \<open>The claim as it stands fails: a step registered after the removal of its name is compiled.\<close>

theorem remove_suppresses_later_step_counterexample:
  "compiled_after (Suc 0) (new_processor ())
      [Reg new_callback ''X'' (Some (1::nat)), Rem new_callback ''X'',
       Reg new_callback ''X'' (Some 2)] = Some [Some 2]
   \<and> compiled_after (Suc 0) (new_processor ())
      [Reg new_callback ''X'' (Some (1::nat)), Rem new_callback ''X'',
       Reg new_callback ''X'' (Some 2)] \<noteq> Some []"
  by (simp add: compiled_after_def register_plain_first remove_only_step register_after_remove)


subsection \<open>Conditions\<close>

text \<open>
  C6, as the code has it. A compilation keeps in the registry exactly the candidate set: a
  step whose condition is false at that moment is dropped from the registry, so that
  every step left has a condition that holds, and no later compilation sees the step.
\<close>

theorem compile_keeps_candidates_only:
  assumes "compile fuel p = Some (p', err)"
  shows "mset (map fixed_fields (callbacks p')) = mset (map fixed_fields (candidates p))
       \<and> (\<forall>c \<in> set (callbacks p'). matches (db p) c)"
proof -
  have m: "mset (map fixed_fields (callbacks p')) = mset (map fixed_fields (candidates p))"
    by (rule compile_registry(1) [OF assms])
  have "matches (db p) c" if "c \<in> set (callbacks p')" for c
  proof -
    from that have "fixed_fields c \<in> set (map fixed_fields (callbacks p'))" by simp
    also have "\<dots> = set (map fixed_fields (candidates p))" using m by (rule mset_eq_setD)
    finally obtain c' where c': "c' \<in> set (candidates p)" "fixed_fields c' = fixed_fields c"
      by auto
    from c'(1) have "matches (db p) c'" by (simp add: candidates_def)
    with c'(2) show ?thesis by (simp add: matches_def fixed_fields_def)
  qed
  with m show ?thesis by blast
qed

theorem compile_keeps_candidates_only_witness:
  "compile (Suc 0) ((new_processor False)\<lparr>callbacks := [(Match id)\<lparr>name := ''A'', handler := Some (1::nat)\<rparr>]\<rparr>)
     = Some (new_processor False, None)
   \<and> mset (map fixed_fields (callbacks (new_processor False :: (bool, nat) processor)))
     = mset (map fixed_fields (candidates ((new_processor False)\<lparr>callbacks := [(Match id)\<lparr>name := ''A'', handler := Some (1::nat)\<rparr>]\<rparr>)))"
proof -
  have c: "compile (Suc 0) ((new_processor False)\<lparr>callbacks := [(Match id)\<lparr>name := ''A'', handler := Some (1::nat)\<rparr>]\<rparr>)
     = Some (new_processor False, None)"
    using register_unmatched_first [of id False 0 "''A''" "Some (1::nat)"]
    by (simp add: callback_Register_def new_processor_def)
  from compile_keeps_candidates_only [OF c] c show ?thesis by simp
qed

text \<open>
  The claim as it stands fails: registered under a condition that does not hold, the step
  is not in the registry when \<open>Register\<close> returns.
\<close>

theorem unmatched_step_stays_registered_counterexample:
  "registry_after (Suc 0) (new_processor False) [Reg (Match id) ''A'' (Some (1::nat))] = Some []"
  by (simp add: registry_after_def register_unmatched_first) (simp add: new_processor_def)

subsection \<open>What compiling writes\<close>

text \<open>
  C7, as the code has it. Compiling leaves the name, the handler, the condition and the
  removal and replacement marks of every step as they are (the steps stand in the order
  the stable sort gave them); the fields \<open>before\<close> and \<open>after\<close> are not protected.
\<close>

theorem compile_writes_no_fixed_field:
  assumes "compile fuel p = Some (p', err)"
  shows "map fixed_fields (callbacks p') = map fixed_fields (SliceStable star_less (candidates p))"
proof -
  from assms obtain r where "sortCallbacks fuel (candidates p) = Some r" "callbacks p' = sr_cs r"
    by (auto simp: compile_candidates split: option.splits)
  then show ?thesis using sortCallbacks_fixed by metis
qed


theorem compile_writes_no_fixed_field_witness:
  "compile (Suc 0)
     (\<lparr>db = (), Clauses = [], fns = [Some (1::nat)],
       callbacks = [\<lparr>name = ''B'', before = ''A'', after = [], remove = False, replace = False,
                     match = None, handler = Some 1\<rparr>],
       logged = []\<rparr>
      \<lparr>callbacks := [\<lparr>name = ''B'', before = ''A'', after = [], remove = False, replace = False,
                     match = None, handler = Some 1\<rparr>,
                     \<lparr>name = ''A'', before = [], after = [], remove = False, replace = False,
                     match = None, handler = Some 2\<rparr>]\<rparr>)
   = Some (\<lparr>db = (), Clauses = [], fns = [Some 1, Some 2],
            callbacks = [\<lparr>name = ''B'', before = ''A'', after = [], remove = False, replace = False,
                          match = None, handler = Some 1\<rparr>,
                         \<lparr>name = ''A'', before = [], after = ''B'', remove = False, replace = False,
                          match = None, handler = Some 2\<rparr>],
            logged = []\<rparr>, None)
   \<and> map fixed_fields
        [\<lparr>name = ''B'', before = ''A'', after = [], remove = False, replace = False,
          match = None :: (unit \<Rightarrow> bool) option, handler = Some (1::nat)\<rparr>,
         \<lparr>name = ''A'', before = [], after = ''B'', remove = False, replace = False,
          match = None, handler = Some 2\<rparr>]
     = [(''B'', False, False, None, Some 1), (''A'', False, False, None, Some 2)]"
proof -
  have c: "compile (Suc 0)
     (\<lparr>db = (), Clauses = [], fns = [Some (1::nat)],
       callbacks = [\<lparr>name = ''B'', before = ''A'', after = [], remove = False, replace = False,
                     match = None, handler = Some 1\<rparr>],
       logged = []\<rparr>
      \<lparr>callbacks := [\<lparr>name = ''B'', before = ''A'', after = [], remove = False, replace = False,
                     match = None, handler = Some 1\<rparr>,
                     \<lparr>name = ''A'', before = [], after = [], remove = False, replace = False,
                     match = None, handler = Some 2\<rparr>]\<rparr>)
   = Some (\<lparr>db = (), Clauses = [], fns = [Some 1, Some 2],
            callbacks = [\<lparr>name = ''B'', before = ''A'', after = [], remove = False, replace = False,
                          match = None, handler = Some 1\<rparr>,
                         \<lparr>name = ''A'', before = [], after = ''B'', remove = False, replace = False,
                          match = None, handler = Some 2\<rparr>],
            logged = []\<rparr>, None)"
    using register_target_second [of "''B''" "''A''" 0 "()" "Some (1::nat)" "Some 2"]
    by (simp add: callback_Register_def new_callback_def)
  from compile_writes_no_fixed_field [OF c] c show ?thesis
    by (simp add: fixed_fields_def)
qed

text \<open>
  The claim as it stands fails: \<open>A\<close>, registered with no constraint after a step that is
  \<open>before\<close> it, has the \<open>after\<close> field \<open>B\<close> when \<open>Register\<close> returns.
\<close>

theorem compile_leaves_steps_unchanged_counterexample:
  "map_option (map after) (registry_after (Suc 0) (new_processor ())
      [Reg (Before ''A'') ''B'' (Some (1::nat)), Reg new_callback ''A'' (Some 2)])
     = Some [[], ''B'']
   \<and> map_option (map after) (registry_after (Suc 0) (new_processor ())
      [Reg (Before ''A'') ''B'' (Some (1::nat)), Reg new_callback ''A'' (Some 2)])
     \<noteq> Some [[], []]"
  by (simp add: registry_after_def mutual_before_first register_target_second)

subsection \<open>A failed compilation\<close>

text \<open>
  C8. When a registration returns a conflict, the compiled list of the stage is empty, the
  error names a callback that is in the registry, and the callback just registered is
  in the registry too (if its condition holds and its name bears no removal).
\<close>

theorem failed_compile_caches_nothing:
  assumes "callback_Register fuel p c n fn = Some (p', Some err)"
  shows "fns p' = []
       \<and> (\<exists>x \<in> set (callbacks p'). \<exists>t. err = conflict_msg (name x) t)
       \<and> (matches (db p) c \<longrightarrow> \<not> remove c \<longrightarrow> n \<notin> set (map name (filter remove (callbacks p)))
            \<longrightarrow> (\<exists>x \<in> set (callbacks p'). name x = n \<and> handler x = fn))"
proof -
  let ?c = "c\<lparr>name := n, handler := fn\<rparr>"
  let ?p = "p\<lparr>callbacks := callbacks p @ [?c]\<rparr>"
  from assms have c: "compile fuel ?p = Some (p', Some err)"
    by (simp add: callback_Register_def)
  have "\<exists>x \<in> set (callbacks p'). name x = n \<and> handler x = fn"
    if "matches (db p) c" "\<not> remove c" "n \<notin> set (map name (filter remove (callbacks p)))"
  proof -
    from that have "?c \<in> set (candidates ?p)"
      by (auto simp: candidates_def matches_def)
    then have "fixed_fields ?c \<in> set (map fixed_fields (candidates ?p))" by simp
    also have "\<dots> = set (map fixed_fields (callbacks p'))"
      using compile_registry(1) [OF c] by (metis mset_eq_setD)
    finally obtain x where "x \<in> set (callbacks p')" "fixed_fields x = fixed_fields ?c" by auto
    then show ?thesis by (auto simp: fixed_fields_def)
  qed
  with compile_registry(3) [OF c refl] show ?thesis by blast
qed

theorem failed_compile_caches_nothing_witness:
  "callback_Register (Suc 0)
       \<lparr>db = (), Clauses = [], fns = [Some (1::nat)],
        callbacks = [\<lparr>name = ''A'', before = ''B'', after = [], remove = False, replace = False,
                      match = None, handler = Some 1\<rparr>],
        logged = []\<rparr> (Before ''A'') ''B'' (Some 2)
      = Some (\<lparr>db = (), Clauses = [], fns = [],
               callbacks = [\<lparr>name = ''A'', before = ''B'', after = [], remove = False, replace = False,
                             match = None, handler = Some 1\<rparr>,
                            \<lparr>name = ''B'', before = ''A'', after = ''A'', remove = False, replace = False,
                             match = None, handler = Some 2\<rparr>],
               logged = [Error_compile (conflict_msg ''B'' ''A'')]\<rparr>, Some (conflict_msg ''B'' ''A''))
   \<and> fns \<lparr>db = (), Clauses = [], fns = ([] :: nat option list),
               callbacks = [\<lparr>name = ''A'', before = ''B'', after = [], remove = False, replace = False,
                             match = None, handler = Some 1\<rparr>,
                            \<lparr>name = ''B'', before = ''A'', after = ''A'', remove = False, replace = False,
                             match = None, handler = Some 2\<rparr>],
               logged = [Error_compile (conflict_msg ''B'' ''A'')]\<rparr> = []"
proof -
  have r: "callback_Register (Suc 0)
       \<lparr>db = (), Clauses = [], fns = [Some (1::nat)],
        callbacks = [\<lparr>name = ''A'', before = ''B'', after = [], remove = False, replace = False,
                      match = None, handler = Some 1\<rparr>],
        logged = []\<rparr> (Before ''A'') ''B'' (Some 2)
      = Some (\<lparr>db = (), Clauses = [], fns = [],
               callbacks = [\<lparr>name = ''A'', before = ''B'', after = [], remove = False, replace = False,
                             match = None, handler = Some 1\<rparr>,
                            \<lparr>name = ''B'', before = ''A'', after = ''A'', remove = False, replace = False,
                             match = None, handler = Some 2\<rparr>],
               logged = [Error_compile (conflict_msg ''B'' ''A'')]\<rparr>, Some (conflict_msg ''B'' ''A''))"
    by (rule mutual_before_second) simp_all
  from failed_compile_caches_nothing [OF r] r show ?thesis by simp
qed

subsection \<open>Registrations without constraints\<close>

text \<open>
  C10. Steps registered through plain \<open>Register\<close> on a fresh stage, under distinct names:
  every registration returns without an error, and the compiled list is the handlers in
  the order of registration.
\<close>

theorem plain_registrations_compile_in_order:
  assumes "distinct (map fst regs)"
  shows "\<exists>p. register_all (Suc fuel) (new_processor d) (map plain_registration regs)
            = Some (p, replicate (length regs) None)
          \<and> fns p = map snd regs"
  using register_all_unconstrained [of "new_processor d" regs fuel] assms
  by (simp add: new_processor_def)

theorem plain_registrations_compile_in_order_witness:
  "distinct (map fst [(''gorm:a'', Some (1::nat)), (''gorm:b'', Some 2), (''gorm:c'', Some 3)])
   \<and> compiled_after (Suc 0) (new_processor ())
        [Reg new_callback ''gorm:a'' (Some (1::nat)), Reg new_callback ''gorm:b'' (Some 2),
         Reg new_callback ''gorm:c'' (Some 3)]
       = Some [Some 1, Some 2, Some 3]"
proof -
  have h: "distinct (map fst [(''gorm:a'', Some (1::nat)), (''gorm:b'', Some 2), (''gorm:c'', Some 3)])"
    by simp
  from plain_registrations_compile_in_order [OF h, of 0 "()"] h show ?thesis
    by (auto simp: compiled_after_def plain_registration_def)
qed

subsection \<open>Termination and the compiled list\<close>

text \<open>
  C2, as the code has it. Take a stage whose candidate steps have distinct names, and
  whose constraints some numbering of the names satisfies (a step that is \<open>after\<close> a name,
  or that a name is \<open>before\<close>, bears the higher number; so there is no cycle). Then the
  compilation returns, the recursion being no deeper than the numbers are high; and when
  it returns no conflict, the compiled list is a permutation of the handlers of the
  candidate steps.
\<close>

theorem compile_terminates_and_permutes:
  assumes "\<forall>c \<in> set (candidates p). ordered_by pos c \<and> pos (name c) < bound"
    and "distinct (map name (candidates p))"
  shows "\<exists>p' err. compile (Suc bound) p = Some (p', err)
           \<and> (err = None \<longrightarrow> mset (fns p') = mset (map handler (candidates p)))"
proof -
  from sortCallbacks_terminates [OF assms(1)]
  obtain r where r: "sortCallbacks (Suc bound) (candidates p) = Some r" by auto
  have "mset (sr_fns r) = mset (map handler (candidates p))" if "sr_err r = None"
    using r that assms(2) candidates_not_removed by (rule sortCallbacks_permutation)
  with r show ?thesis by (simp add: compile_candidates)
qed


theorem compile_terminates_and_permutes_witness:
  "list_all (\<lambda>c. ordered_by example_numbering c \<and> example_numbering (name c) < 2)
     (candidates example_constrained_stage)
   \<and> distinct (map name (candidates example_constrained_stage))
   \<and> map_option snd (compile (Suc 2) example_constrained_stage) = Some None
   \<and> map_option (mset \<circ> fns \<circ> fst) (compile (Suc 2) example_constrained_stage)
       = Some (mset (map handler (candidates example_constrained_stage)))"
proof -
  have c: "candidates example_constrained_stage =
      [\<lparr>name = ''B'', before = ''A'', after = [], remove = False, replace = False,
        match = None, handler = Some 1\<rparr>,
       \<lparr>name = ''A'', before = [], after = [], remove = False, replace = False,
        match = None, handler = Some 2\<rparr>]"
    by (simp add: candidates_def example_constrained_stage_def matches_def)
  have h1: "\<forall>c \<in> set (candidates example_constrained_stage).
      ordered_by example_numbering c \<and> example_numbering (name c) < 2"
    unfolding c by (simp add: ordered_by_def example_numbering_def)
  have h2: "distinct (map name (candidates example_constrained_stage))"
    unfolding c by simp
  have e: "map_option snd (compile (Suc 2) example_constrained_stage) = Some None"
    using register_target_second [of "''B''" "''A''" 2 "()" "Some (1::nat)" "Some 2"]
    by (simp add: callback_Register_def new_callback_def example_constrained_stage_def)
  from compile_terminates_and_permutes [OF h1 h2] e h1 h2 show ?thesis
    by (auto simp: list_all_iff)
qed

text \<open>
  The claim as it stands fails twice. Of two steps registered under one name, one handler is
  compiled, not two; and a step that is before \<open>A\<close> and after \<open>B\<close>, registered after \<open>A\<close> and
  \<open>B\<close>, is refused as a conflict, though the order \<open>B\<close>, \<open>C\<close>, \<open>A\<close> satisfies every constraint.
\<close>

theorem compile_permutes_candidates_counterexample:
  "map_option (map handler) (registry_after (Suc 0) (new_processor ())
      [Reg new_callback ''Y'' (Some (1::nat)), Reg new_callback ''Y'' (Some 2)])
     = Some [Some 1, Some 2]
   \<and> compiled_after (Suc 0) (new_processor ())
      [Reg new_callback ''Y'' (Some (1::nat)), Reg new_callback ''Y'' (Some 2)]
     = Some [Some 2]
   \<and> map_option snd (register_all (Suc 0) (new_processor ())
      [Reg new_callback ''A'' (Some (1::nat)), Reg new_callback ''B'' (Some 2),
       Reg (callback_After (Before ''A'') ''B'') ''C'' (Some 3)])
     = Some [None, None, Some ''conflicting callback C with before B'']"
  by (simp add: registry_after_def compiled_after_def register_plain_first
      register_duplicate_second register_plain_second satisfiable_conflict_third conflict_msg_def)

end
